theory Spec2Isabelle
  imports Main "HOL-Library.AList" "HOL-Library.Sublist"
begin

section \<open>JavaScript strings\<close>

text \<open>
  Strings are lists of characters. A \<^typ>\<open>char\<close> stands for one code unit below 256
  (the Latin-1 range), which is closed under the three string operations the header
  collection uses: \<open>toLowerCase\<close>, \<open>trim\<close> and \<open>indexOf\<close>.
\<close>

definition toLowerCaseChar :: "char \<Rightarrow> char" where
  "toLowerCaseChar c =
     (let n = (of_char c :: nat)
      in if (65 \<le> n \<and> n \<le> 90) \<or> (192 \<le> n \<and> n \<le> 222 \<and> n \<noteq> 215)
         then char_of (n + 32) else c)"

definition toLowerCase :: "string \<Rightarrow> string" where
  "toLowerCase s = map toLowerCaseChar s"

text \<open>White space and line terminators of ECMAScript below code unit 256.\<close>

definition isWhiteSpace :: "char \<Rightarrow> bool" where
  "isWhiteSpace c = ((of_char c :: nat) \<in> {9, 10, 11, 12, 13, 32, 160})"

definition trim :: "string \<Rightarrow> string" where
  "trim s = rev (dropWhile isWhiteSpace (rev (dropWhile isWhiteSpace s)))"

text \<open>\<open>s.split(sep)\<close> for a one-character separator: never the empty list.\<close>

fun splitStr :: "char \<Rightarrow> string \<Rightarrow> string list" where
  "splitStr sep [] = [[]]"
| "splitStr sep (c # cs) =
     (if c = sep then [] # splitStr sep cs
      else (case splitStr sep cs of
              [] \<Rightarrow> [[c]]
            | l # ls \<Rightarrow> (c # l) # ls))"

text \<open>\<open>s.indexOf(t)\<close>: the first position where \<open>t\<close> occurs in \<open>s\<close>, or \<open>-1\<close>.\<close>

fun indexOfFrom :: "nat \<Rightarrow> string \<Rightarrow> string \<Rightarrow> int" where
  "indexOfFrom i [] t = (if t = [] then int i else - 1)"
| "indexOfFrom i (c # cs) t =
     (if prefix t (c # cs) then int i else indexOfFrom (Suc i) cs t)"

definition indexOf :: "string \<Rightarrow> string \<Rightarrow> int" where
  "indexOf s t = indexOfFrom 0 s t"

text \<open>\<open>xs.indexOf(v)\<close> on an array of strings (strict equality of elements).\<close>

fun arrayIndexOfFrom :: "nat \<Rightarrow> string list \<Rightarrow> string \<Rightarrow> int" where
  "arrayIndexOfFrom i [] v = - 1"
| "arrayIndexOfFrom i (x # xs) v = (if x = v then int i else arrayIndexOfFrom (Suc i) xs v)"

definition arrayIndexOf :: "string list \<Rightarrow> string \<Rightarrow> int" where
  "arrayIndexOf xs v = arrayIndexOfFrom 0 xs v"

text \<open>\<open>s.slice(b, e)\<close> and \<open>s.slice(b)\<close>, negative positions counted from the end.\<close>

definition slice :: "string \<Rightarrow> int \<Rightarrow> int \<Rightarrow> string" where
  "slice s b e =
     (let n = int (length s);
          b' = (if b < 0 then max (n + b) 0 else min b n);
          e' = (if e < 0 then max (n + e) 0 else min e n)
      in take (nat (e' - b')) (drop (nat b') s))"

definition sliceFrom :: "string \<Rightarrow> int \<Rightarrow> string" where
  "sliceFrom s b = slice s b (int (length s))"


section \<open>JavaScript maps\<close>

text \<open>
  A \<open>Map<string, V>\<close> is an association list in insertion order: \<open>set\<close> on a present key
  replaces the value where it stands, on a new key it adds the entry at the end.
\<close>

type_synonym 'v jsmap = "(string \<times> 'v) list"

definition map_has :: "'v jsmap \<Rightarrow> string \<Rightarrow> bool" where
  "map_has m k = (map_of m k \<noteq> None)"

definition map_get :: "'v jsmap \<Rightarrow> string \<Rightarrow> 'v option" where
  "map_get m k = map_of m k"

definition map_set :: "'v jsmap \<Rightarrow> string \<Rightarrow> 'v \<Rightarrow> 'v jsmap" where
  "map_set m k v = AList.update k v m"

definition map_delete :: "'v jsmap \<Rightarrow> string \<Rightarrow> 'v jsmap" where
  "map_delete m k = AList.delete k m"

definition map_keys :: "'v jsmap \<Rightarrow> string list" where
  "map_keys m = map fst m"

definition map_values :: "'v jsmap \<Rightarrow> 'v list" where
  "map_values m = map snd m"


section \<open>Header objects and the heap of string arrays\<close>

type_synonym href = nat
type_synonym aref = nat

text \<open>A value of type \<open>string | string[]\<close>; an array is a reference into the heap.\<close>

datatype jsvalue = VStr string | VArr aref

datatype opkind = OpA | OpS | OpD

record update =
  uname :: string
  uvalue :: "jsvalue option"
  uop :: opkind

text \<open>
  The field \<open>lazyInit\<close>: \<open>null\<close> (or not set), another header object, or one of the two
  closures the constructor builds, with the constructor argument each one captures.
\<close>

datatype lazy =
    LNull
  | LParent href
  | LString string
  | LRecord "(string \<times> jsvalue) list"

record HttpHeaders =
  headers :: "aref jsmap option"
  normalizedNames :: "string jsmap"
  lazyInit :: lazy
  lazyUpdate :: "update list option"

record heap =
  arrays :: "aref \<Rightarrow> string list"
  nextArr :: nat

record store =
  objs :: "href \<Rightarrow> HttpHeaders"
  nextObj :: nat
  hp :: heap

text \<open>
  \<open>TypeError\<close>: a property is read from \<open>undefined\<close>. \<open>NullAssertion\<close>: a value the source
  asserts to be present with \<open>!\<close> is \<open>undefined\<close>; the JavaScript would carry on with
  \<open>undefined\<close>, the model stops there.
\<close>

datatype error = TypeError | NullAssertion

definition bindE :: "error + 'a \<Rightarrow> ('a \<Rightarrow> error + 'b) \<Rightarrow> error + 'b" where
  "bindE m f = (case m of Inl e \<Rightarrow> Inl e | Inr x \<Rightarrow> f x)"

text \<open>\<open>xs.forEach(f)\<close> for an \<open>f\<close> that changes the state and may throw.\<close>

fun forEachE :: "('a \<Rightarrow> 's \<Rightarrow> error + 's) \<Rightarrow> 'a list \<Rightarrow> 's \<Rightarrow> error + 's" where
  "forEachE f [] st = Inr st"
| "forEachE f (x # xs) st = bindE (f x st) (forEachE f xs)"

definition emptyObj :: HttpHeaders where
  "emptyObj = \<lparr>headers = None, normalizedNames = [], lazyInit = LNull, lazyUpdate = None\<rparr>"

definition emptyStore :: store where
  "emptyStore =
     \<lparr>objs = (\<lambda>_. emptyObj), nextObj = 0, hp = \<lparr>arrays = (\<lambda>_. []), nextArr = 0\<rparr>\<rparr>"

text \<open>An array literal: a new array in the heap.\<close>

definition newArray :: "string list \<Rightarrow> heap \<Rightarrow> aref \<times> heap" where
  "newArray xs H =
     (nextArr H, H\<lparr>arrays := (arrays H)(nextArr H := xs), nextArr := Suc (nextArr H)\<rparr>)"

text \<open>\<open>r.push(...xs)\<close>: the array is changed where it is.\<close>

definition push :: "aref \<Rightarrow> string list \<Rightarrow> heap \<Rightarrow> heap" where
  "push r xs H = H\<lparr>arrays := (arrays H)(r := arrays H r @ xs)\<rparr>"


text \<open>
  \<open>if (typeof value === 'string') { value = [value]; }\<close>: the result is always an
  array, a new one for a string.
\<close>

definition asArray :: "jsvalue \<Rightarrow> heap \<Rightarrow> aref \<times> heap" where
  "asArray v H = (case v of VStr s \<Rightarrow> newArray [s] H | VArr r \<Rightarrow> (r, H))"


section \<open>The class HttpHeaders\<close>

text \<open>
  A private method takes the fields of its receiver and the heap, and returns both as it
  leaves them.
\<close>

type_synonym mstate = "HttpHeaders \<times> heap"

definition maybeSetNormalizedName :: "string \<Rightarrow> string \<Rightarrow> HttpHeaders \<Rightarrow> HttpHeaders" where
  "maybeSetNormalizedName name lcName this =
     (if \<not> map_has (normalizedNames this) lcName
      then this\<lparr>normalizedNames := map_set (normalizedNames this) lcName name\<rparr>
      else this)"

subsection \<open>The constructor and its two closures\<close>

text \<open>The body of the \<open>forEach\<close> over the lines of a raw header block.\<close>

definition parseLine :: "string \<Rightarrow> mstate \<Rightarrow> error + mstate" where
  "parseLine line st =
     (let (this, H) = st;
          index = indexOf line '':''
      in if index > 0 then
           (let name = slice line 0 index;
                key = toLowerCase name;
                value = trim (sliceFrom line (index + 1));
                this1 = maybeSetNormalizedName name key this
            in case headers this1 of
                 None \<Rightarrow> Inl TypeError
               | Some hs \<Rightarrow>
                   if map_has hs key then
                     (case map_get hs key of
                        None \<Rightarrow> Inl TypeError
                      | Some r \<Rightarrow> Inr (this1, push r [value] H))
                   else
                     (let (r, H1) = newArray [value] H
                      in Inr (this1\<lparr>headers := Some (map_set hs key r)\<rparr>, H1)))
         else Inr st)"

definition initFromString :: "string \<Rightarrow> mstate \<Rightarrow> error + mstate" where
  "initFromString s st =
     (let (this, H) = st
      in forEachE parseLine (splitStr (CHR 0x0A) s) (this\<lparr>headers := Some []\<rparr>, H))"

text \<open>
  The body of the \<open>forEach\<close> over \<open>Object.keys(headers)\<close>; the record is given as its
  entries in that order.
\<close>

definition parseEntry :: "string \<times> jsvalue \<Rightarrow> mstate \<Rightarrow> error + mstate" where
  "parseEntry entry st =
     (let (this, H) = st;
          name = fst entry;
          key = toLowerCase name;
          (values, H1) = asArray (snd entry) H
      in if length (arrays H1 values) > 0 then
           (case headers this of
              None \<Rightarrow> Inl TypeError
            | Some hs \<Rightarrow>
                Inr (maybeSetNormalizedName name key
                       (this\<lparr>headers := Some (map_set hs key values)\<rparr>), H1))
         else Inr (this, H1))"

definition initFromRecord :: "(string \<times> jsvalue) list \<Rightarrow> mstate \<Rightarrow> error + mstate" where
  "initFromRecord entries st =
     (let (this, H) = st
      in forEachE parseEntry entries (this\<lparr>headers := Some []\<rparr>, H))"

text \<open>The argument of the constructor: absent, a string, or a record.\<close>

datatype ctorArg = ANone | AString string | ARecord "(string \<times> jsvalue) list"

definition newHttpHeaders :: "ctorArg \<Rightarrow> store \<Rightarrow> href \<times> store" where
  "newHttpHeaders arg \<sigma> =
     (let ob = (case arg of
                  ANone \<Rightarrow> emptyObj\<lparr>headers := Some []\<rparr>
                | AString s \<Rightarrow>
                    (if s = [] then emptyObj\<lparr>headers := Some []\<rparr>
                     else emptyObj\<lparr>lazyInit := LString s\<rparr>)
                | ARecord es \<Rightarrow> emptyObj\<lparr>lazyInit := LRecord es\<rparr>)
      in (nextObj \<sigma>, \<sigma>\<lparr>objs := (objs \<sigma>)(nextObj \<sigma> := ob), nextObj := Suc (nextObj \<sigma>)\<rparr>))"

subsection \<open>Updates\<close>

text \<open>\<open>this.headers.delete(key); this.normalizedNames.delete(key)\<close>\<close>

definition deleteKey :: "string \<Rightarrow> mstate \<Rightarrow> error + mstate" where
  "deleteKey key st =
     (let (this, H) = st
      in case headers this of
           None \<Rightarrow> Inl TypeError
         | Some hs \<Rightarrow>
             Inr (this\<lparr>headers := Some (map_delete hs key),
                       normalizedNames := map_delete (normalizedNames this) key\<rparr>, H))"

text \<open>\<open>toDelete.indexOf(value) === -1\<close>, for a filter that is a string or an array.\<close>

definition keepValue :: "heap \<Rightarrow> jsvalue \<Rightarrow> string \<Rightarrow> bool" where
  "keepValue H toDelete v =
     (case toDelete of
        VStr s \<Rightarrow> indexOf s v = - 1
      | VArr r \<Rightarrow> arrayIndexOf (arrays H r) v = - 1)"

text \<open>\<open>!toDelete\<close>: \<open>undefined\<close> and the empty string are falsy, every array is truthy.\<close>

definition falsy :: "jsvalue option \<Rightarrow> bool" where
  "falsy v = (case v of None \<Rightarrow> True | Some (VStr s) \<Rightarrow> s = [] | Some (VArr r) \<Rightarrow> False)"

definition applyUpdate :: "update \<Rightarrow> mstate \<Rightarrow> error + mstate" where
  "applyUpdate u st =
     (let (this, H) = st;
          key = toLowerCase (uname u)
      in case uop u of
           OpD \<Rightarrow>
             (if falsy (uvalue u) then deleteKey key st
              else
                (case uvalue u of
                   None \<Rightarrow> deleteKey key st
                 | Some toDelete \<Rightarrow>
                     (case headers this of
                        None \<Rightarrow> Inl TypeError
                      | Some hs \<Rightarrow>
                          (case map_get hs key of
                             None \<Rightarrow> Inr st
                           | Some old \<Rightarrow>
                               (let (existing, H1) =
                                      newArray (filter (keepValue H toDelete) (arrays H old)) H
                                in if length (arrays H1 existing) = 0
                                   then deleteKey key (this, H1)
                                   else Inr (this\<lparr>headers := Some (map_set hs key existing)\<rparr>,
                                             H1))))))
         | _ \<Rightarrow>
             (case uvalue u of
                None \<Rightarrow> Inl TypeError
              | Some v \<Rightarrow>
                  (let (value, H0) = asArray v H
                   in if length (arrays H0 value) = 0 then Inr (this, H0)
                      else
                        (let this1 = maybeSetNormalizedName (uname u) key this
                         in case headers this1 of
                              None \<Rightarrow> Inl TypeError
                            | Some hs \<Rightarrow>
                                (let (base, H2) =
                                       (case (if uop u = OpA then map_get hs key else None) of
                                          Some r \<Rightarrow> (r, H0)
                                        | None \<Rightarrow> newArray [] H0);
                                     H3 = push base (arrays H2 value) H2
                                 in Inr (this1\<lparr>headers := Some (map_set hs key base)\<rparr>,
                                         H3))))))"

subsection \<open>Lazy initialisation\<close>

text \<open>The body of the \<open>forEach\<close> in \<open>copyFrom\<close>; \<open>other\<close> is the object copied from.\<close>

definition copyKey :: "HttpHeaders \<Rightarrow> string \<Rightarrow> mstate \<Rightarrow> error + mstate" where
  "copyKey other key st =
     (let (this, H) = st
      in case headers this of
           None \<Rightarrow> Inl TypeError
         | Some hs \<Rightarrow>
             (case headers other of
                None \<Rightarrow> Inl TypeError
              | Some ohs \<Rightarrow>
                  (case map_get ohs key of
                     None \<Rightarrow> Inl NullAssertion
                   | Some r \<Rightarrow>
                       (case map_get (normalizedNames other) key of
                          None \<Rightarrow> Inl NullAssertion
                        | Some n \<Rightarrow>
                            Inr (this\<lparr>headers := Some (map_set hs key r),
                                      normalizedNames :=
                                        map_set (normalizedNames this) key n\<rparr>, H)))))"

text \<open>
  \<open>copyFrom\<close> after its first statement \<open>other.init()\<close>, which is the recursive call of
  \<open>init\<close> below.
\<close>

definition copyFrom :: "HttpHeaders \<Rightarrow> mstate \<Rightarrow> error + mstate" where
  "copyFrom other st =
     (case headers other of
        None \<Rightarrow> Inl TypeError
      | Some ohs \<Rightarrow> forEachE (copyKey other) (map_keys ohs) st)"

text \<open>The end of \<open>init\<close>: clear \<open>lazyInit\<close>, then replay and clear the queued updates.\<close>

definition finishInit :: "mstate \<Rightarrow> error + mstate" where
  "finishInit st =
     (let (this, H) = st;
          this1 = this\<lparr>lazyInit := LNull\<rparr>
      in case lazyUpdate this1 of
           None \<Rightarrow> Inr (this1, H)
         | Some us \<Rightarrow>
             bindE (forEachE applyUpdate us (this1, H)) (\<lambda>(this2, H2).
               Inr (this2\<lparr>lazyUpdate := None\<rparr>, H2)))"

text \<open>Running a method on the object at \<open>this\<close> and writing its fields back.\<close>

definition withThis :: "href \<Rightarrow> (mstate \<Rightarrow> error + mstate) \<Rightarrow> store \<Rightarrow> error + store" where
  "withThis this m \<sigma> =
     bindE (m (objs \<sigma> this, hp \<sigma>)) (\<lambda>(ob, H).
       Inr (\<sigma>\<lparr>objs := (objs \<sigma>)(this := ob), hp := H\<rparr>))"

text \<open>
  \<open>init\<close> follows the chain of parents, which nothing in the class bounds: the result is
  \<open>None\<close> when it does not return.
\<close>

partial_function (option) init :: "href \<Rightarrow> store \<Rightarrow> (error + store) option" where
  "init this \<sigma> =
     (case lazyInit (objs \<sigma> this) of
        LNull \<Rightarrow> Some (Inr \<sigma>)
      | LParent other \<Rightarrow>
          Option.bind (init other \<sigma>) (\<lambda>r.
            Some (bindE r (\<lambda>\<sigma>1.
              withThis this (\<lambda>st. bindE (copyFrom (objs \<sigma>1 other) st) finishInit) \<sigma>1)))
      | LString s \<Rightarrow>
          Some (withThis this (\<lambda>st. bindE (initFromString s st) finishInit) \<sigma>)
      | LRecord es \<Rightarrow>
          Some (withThis this (\<lambda>st. bindE (initFromRecord es st) finishInit) \<sigma>))"

declare init.simps [code]

definition clone :: "href \<Rightarrow> update \<Rightarrow> store \<Rightarrow> href \<times> store" where
  "clone this u \<sigma> =
     (let (c, \<sigma>1) = newHttpHeaders ANone \<sigma>;
          li = (case lazyInit (objs \<sigma>1 this) of
                  LParent p \<Rightarrow> LParent p
                | _ \<Rightarrow> LParent this);
          lu = (case lazyUpdate (objs \<sigma>1 this) of None \<Rightarrow> [] | Some us \<Rightarrow> us) @ [u]
      in (c, \<sigma>1\<lparr>objs := (objs \<sigma>1)(c := (objs \<sigma>1 c)\<lparr>lazyInit := li, lazyUpdate := Some lu\<rparr>)\<rparr>))"

subsection \<open>The public methods\<close>

text \<open>A read: \<open>this.init()\<close>, then a look at the object and the heap.\<close>

definition afterInit ::
  "href \<Rightarrow> store \<Rightarrow> (mstate \<Rightarrow> error + 'a) \<Rightarrow> (error + 'a \<times> store) option" where
  "afterInit this \<sigma> f =
     map_option
       (\<lambda>r. bindE r (\<lambda>\<sigma>1. bindE (f (objs \<sigma>1 this, hp \<sigma>1)) (\<lambda>x. Inr (x, \<sigma>1))))
       (init this \<sigma>)"

definition has :: "href \<Rightarrow> string \<Rightarrow> store \<Rightarrow> (error + bool \<times> store) option" where
  "has this name \<sigma> =
     afterInit this \<sigma> (\<lambda>(ob, H).
       case headers ob of
         None \<Rightarrow> Inl TypeError
       | Some hs \<Rightarrow> Inr (map_has hs (toLowerCase name)))"

definition get :: "href \<Rightarrow> string \<Rightarrow> store \<Rightarrow> (error + string option \<times> store) option" where
  "get this name \<sigma> =
     afterInit this \<sigma> (\<lambda>(ob, H).
       case headers ob of
         None \<Rightarrow> Inl TypeError
       | Some hs \<Rightarrow>
           Inr (case map_get hs (toLowerCase name) of
                  None \<Rightarrow> None
                | Some values \<Rightarrow>
                    (case arrays H values of [] \<Rightarrow> None | v # _ \<Rightarrow> Some v)))"

definition keys :: "href \<Rightarrow> store \<Rightarrow> (error + string list \<times> store) option" where
  "keys this \<sigma> =
     afterInit this \<sigma> (\<lambda>(ob, H). Inr (map_values (normalizedNames ob)))"

definition getAll :: "href \<Rightarrow> string \<Rightarrow> store \<Rightarrow> (error + aref option \<times> store) option" where
  "getAll this name \<sigma> =
     afterInit this \<sigma> (\<lambda>(ob, H).
       case headers ob of
         None \<Rightarrow> Inl TypeError
       | Some hs \<Rightarrow> Inr (map_get hs (toLowerCase name)))"

definition append_hdr :: "href \<Rightarrow> string \<Rightarrow> jsvalue \<Rightarrow> store \<Rightarrow> href \<times> store" where
  "append_hdr this name value \<sigma> =
     clone this \<lparr>uname = name, uvalue = Some value, uop = OpA\<rparr> \<sigma>"

definition set_hdr :: "href \<Rightarrow> string \<Rightarrow> jsvalue \<Rightarrow> store \<Rightarrow> href \<times> store" where
  "set_hdr this name value \<sigma> =
     clone this \<lparr>uname = name, uvalue = Some value, uop = OpS\<rparr> \<sigma>"

definition delete_hdr :: "href \<Rightarrow> string \<Rightarrow> jsvalue option \<Rightarrow> store \<Rightarrow> href \<times> store" where
  "delete_hdr this name value \<sigma> =
     clone this \<lparr>uname = name, uvalue = value, uop = OpD\<rparr> \<sigma>"

text \<open>
  \<open>forEach(fn)\<close>: the result is the list of the calls of \<open>fn\<close>, each with the display name
  and the array it is given.
\<close>

fun forEachCalls :: "HttpHeaders \<Rightarrow> string list \<Rightarrow> error + (string \<times> aref) list" where
  "forEachCalls this [] = Inr []"
| "forEachCalls this (key # ks) =
     (case map_get (normalizedNames this) key of
        None \<Rightarrow> Inl NullAssertion
      | Some n \<Rightarrow>
          (case headers this of
             None \<Rightarrow> Inl TypeError
           | Some hs \<Rightarrow>
               (case map_get hs key of
                  None \<Rightarrow> Inl NullAssertion
                | Some r \<Rightarrow> bindE (forEachCalls this ks) (\<lambda>cs. Inr ((n, r) # cs)))))"

definition forEach :: "href \<Rightarrow> store \<Rightarrow> (error + (string \<times> aref) list \<times> store) option" where
  "forEach this \<sigma> =
     afterInit this \<sigma> (\<lambda>(ob, H). forEachCalls ob (map_keys (normalizedNames ob)))"

text \<open>The caller makes an array of its own.\<close>

definition callerArray :: "string list \<Rightarrow> store \<Rightarrow> aref \<times> store" where
  "callerArray xs \<sigma> = (let (r, H) = newArray xs (hp \<sigma>) in (r, \<sigma>\<lparr>hp := H\<rparr>))"

subsection \<open>What a caller sees\<close>

text \<open>The contents of the array that \<open>getAll\<close> returns, read when it returns.\<close>

definition getAllV ::
  "href \<Rightarrow> string \<Rightarrow> store \<Rightarrow> (error + string list option \<times> store) option" where
  "getAllV this name \<sigma> =
     map_option
       (map_sum id (\<lambda>(r, \<sigma>1). (map_option (arrays (hp \<sigma>1)) r, \<sigma>1)))
       (getAll this name \<sigma>)"

text \<open>The calls that \<open>forEach\<close> makes, each array read when \<open>forEach\<close> returns.\<close>

definition forEachV ::
  "href \<Rightarrow> store \<Rightarrow> (error + (string \<times> string list) list \<times> store) option" where
  "forEachV this \<sigma> =
     map_option
       (map_sum id (\<lambda>(cs, \<sigma>1). (map (\<lambda>(n, r). (n, arrays (hp \<sigma>1) r)) cs, \<sigma>1)))
       (forEach this \<sigma>)"

text \<open>The answer of a call without the store it leaves.\<close>

definition answer :: "(error + 'a \<times> store) option \<Rightarrow> (error + 'a) option" where
  "answer r = map_option (map_sum id fst) r"


section \<open>Specification functions and invariants\<close>

definition valueList :: "heap \<Rightarrow> jsvalue \<Rightarrow> string list" where
  "valueList H v = (case v of VStr s \<Rightarrow> [s] | VArr r \<Rightarrow> arrays H r)"

definition valueOK :: "heap \<Rightarrow> jsvalue \<Rightarrow> bool" where
  "valueOK H v = (case v of VStr s \<Rightarrow> True | VArr r \<Rightarrow> r < nextArr H)"

definition updateOK :: "heap \<Rightarrow> update \<Rightarrow> bool" where
  "updateOK H u = (case uvalue u of None \<Rightarrow> uop u = OpD | Some v \<Rightarrow> valueOK H v)"

definition heapExt :: "heap \<Rightarrow> heap \<Rightarrow> bool" where
  "heapExt H H' =
     (nextArr H \<le> nextArr H' \<and>
      (\<forall>r < nextArr H. prefix (arrays H r) (arrays H' r)) \<and>
      (\<forall>r < nextArr H. arrays H r = [] \<longrightarrow> arrays H' r = []))"

definition refsOK :: "heap \<Rightarrow> aref jsmap \<Rightarrow> bool" where
  "refsOK H hs = (\<forall>e \<in> set hs. snd e < nextArr H \<and> arrays H (snd e) \<noteq> [])"

definition mapsOK :: "heap \<Rightarrow> HttpHeaders \<Rightarrow> bool" where
  "mapsOK H ob =
     (case headers ob of
        None \<Rightarrow> False
      | Some hs \<Rightarrow>
          map fst hs = map fst (normalizedNames ob) \<and> distinct (map fst hs) \<and> refsOK H hs)"

definition sameMaps :: "HttpHeaders \<Rightarrow> HttpHeaders \<Rightarrow> bool" where
  "sameMaps a b = (headers a = headers b \<and> normalizedNames a = normalizedNames b)"

definition setLazy :: "lazy \<Rightarrow> update list option \<Rightarrow> HttpHeaders \<Rightarrow> HttpHeaders" where
  "setLazy li lu ob = ob\<lparr>lazyInit := li, lazyUpdate := lu\<rparr>"

text \<open>
  The raw header format in the words of the specification: the name of a line is what
  stands before its first colon, the value what stands after it, trimmed; a line without
  a colon or with nothing before it counts for nothing.
\<close>

definition namePart :: "string \<Rightarrow> string" where
  "namePart line = takeWhile (\<lambda>c. c \<noteq> CHR '':'') line"

definition valuePart :: "string \<Rightarrow> string" where
  "valuePart line = tl (dropWhile (\<lambda>c. c \<noteq> CHR '':'') line)"

definition headerLine :: "string \<Rightarrow> (string \<times> string) option" where
  "headerLine line =
     (if CHR '':'' \<in> set line \<and> namePart line \<noteq> []
      then Some (namePart line, trim (valuePart line)) else None)"

definition rawPairs :: "string \<Rightarrow> (string \<times> string) list" where
  "rawPairs s = List.map_filter headerLine (splitStr (CHR 0x0A) s)"

definition valuesOf :: "string \<Rightarrow> (string \<times> string) list \<Rightarrow> string list" where
  "valuesOf key ps = map snd (filter (\<lambda>p. toLowerCase (fst p) = key) ps)"

fun firstNames :: "string list \<Rightarrow> (string \<times> string) list \<Rightarrow> string list" where
  "firstNames seen [] = []"
| "firstNames seen (p # ps) =
     (if toLowerCase (fst p) \<in> set seen then firstNames seen ps
      else fst p # firstNames (toLowerCase (fst p) # seen) ps)"

definition rawInv :: "(string \<times> string) list \<Rightarrow> mstate \<Rightarrow> bool" where
  "rawInv ps st =
     (case headers (fst st) of
        None \<Rightarrow> False
      | Some hs \<Rightarrow>
          normalizedNames (fst st) = map (\<lambda>n. (toLowerCase n, n)) (firstNames [] ps) \<and>
          map fst hs = map toLowerCase (firstNames [] ps) \<and>
          distinct (map fst hs) \<and> distinct (map snd hs) \<and>
          (\<forall>e \<in> set hs. snd e < nextArr (snd st) \<and>
                         arrays (snd st) (snd e) = valuesOf (fst e) ps))"

definition updatesOK :: "heap \<Rightarrow> HttpHeaders \<Rightarrow> bool" where
  "updatesOK H ob = (case lazyUpdate ob of None \<Rightarrow> True | Some us \<Rightarrow> \<forall>u \<in> set us. updateOK H u)"

definition isRoot :: "lazy \<Rightarrow> bool" where
  "isRoot l = (case l of LParent p \<Rightarrow> False | _ \<Rightarrow> True)"

definition objOK :: "store \<Rightarrow> HttpHeaders \<Rightarrow> bool" where
  "objOK \<sigma> ob =
     (case lazyInit ob of
        LNull \<Rightarrow> mapsOK (hp \<sigma>) ob \<and> lazyUpdate ob = None
      | LParent p \<Rightarrow>
          p < nextObj \<sigma> \<and> isRoot (lazyInit (objs \<sigma> p)) \<and> headers ob = Some [] \<and>
          normalizedNames ob = [] \<and> updatesOK (hp \<sigma>) ob
      | LString s \<Rightarrow> normalizedNames ob = [] \<and> lazyUpdate ob = None
      | LRecord es \<Rightarrow>
          normalizedNames ob = [] \<and> lazyUpdate ob = None \<and>
          (\<forall>e \<in> set es. valueOK (hp \<sigma>) (snd e)))"

definition storeOK :: "store \<Rightarrow> bool" where
  "storeOK \<sigma> = (\<forall>h < nextObj \<sigma>. objOK \<sigma> (objs \<sigma> h))"

definition argOK :: "heap \<Rightarrow> ctorArg \<Rightarrow> bool" where
  "argOK H arg = (case arg of ARecord es \<Rightarrow> \<forall>e \<in> set es. valueOK H (snd e) | _ \<Rightarrow> True)"

definition filterOK :: "heap \<Rightarrow> jsvalue option \<Rightarrow> bool" where
  "filterOK H v = (case v of None \<Rightarrow> True | Some x \<Rightarrow> valueOK H x)"

inductive reachable :: "store \<Rightarrow> bool" where
  r_empty: "reachable emptyStore"
| r_array: "reachable \<sigma> \<Longrightarrow> reachable (snd (callerArray xs \<sigma>))"
| r_new: "reachable \<sigma> \<Longrightarrow> argOK (hp \<sigma>) arg \<Longrightarrow> reachable (snd (newHttpHeaders arg \<sigma>))"
| r_append: "reachable \<sigma> \<Longrightarrow> h < nextObj \<sigma> \<Longrightarrow> valueOK (hp \<sigma>) v \<Longrightarrow>
               reachable (snd (append_hdr h n v \<sigma>))"
| r_set: "reachable \<sigma> \<Longrightarrow> h < nextObj \<sigma> \<Longrightarrow> valueOK (hp \<sigma>) v \<Longrightarrow>
            reachable (snd (set_hdr h n v \<sigma>))"
| r_delete: "reachable \<sigma> \<Longrightarrow> h < nextObj \<sigma> \<Longrightarrow> filterOK (hp \<sigma>) f \<Longrightarrow>
               reachable (snd (delete_hdr h n f \<sigma>))"
| r_has: "reachable \<sigma> \<Longrightarrow> h < nextObj \<sigma> \<Longrightarrow> has h n \<sigma> = Some (Inr (b, \<sigma>')) \<Longrightarrow> reachable \<sigma>'"
| r_get: "reachable \<sigma> \<Longrightarrow> h < nextObj \<sigma> \<Longrightarrow> get h n \<sigma> = Some (Inr (x, \<sigma>')) \<Longrightarrow> reachable \<sigma>'"
| r_getAll: "reachable \<sigma> \<Longrightarrow> h < nextObj \<sigma> \<Longrightarrow> getAll h n \<sigma> = Some (Inr (r, \<sigma>')) \<Longrightarrow>
               reachable \<sigma>'"
| r_keys: "reachable \<sigma> \<Longrightarrow> h < nextObj \<sigma> \<Longrightarrow> keys h \<sigma> = Some (Inr (ks, \<sigma>')) \<Longrightarrow> reachable \<sigma>'"
| r_forEach: "reachable \<sigma> \<Longrightarrow> h < nextObj \<sigma> \<Longrightarrow> forEach h \<sigma> = Some (Inr (cs, \<sigma>')) \<Longrightarrow>
                reachable \<sigma>'"

definition cloneObj :: "HttpHeaders \<Rightarrow> href \<Rightarrow> update \<Rightarrow> HttpHeaders" where
  "cloneObj ob h u =
     \<lparr>headers = Some [], normalizedNames = [],
      lazyInit = (case lazyInit ob of LParent p \<Rightarrow> LParent p | _ \<Rightarrow> LParent h),
      lazyUpdate = Some ((case lazyUpdate ob of None \<Rightarrow> [] | Some us \<Rightarrow> us) @ [u])\<rparr>"


section \<open>Properties of the methods\<close>

lemma bindE_Inl [simp]: "bindE (Inl e) f = Inl e"
  by (simp add: bindE_def)

lemma bindE_Inr [simp]: "bindE (Inr x) f = f x"
  by (simp add: bindE_def)

lemma forEachE_append:
  "forEachE f (xs @ ys) st = bindE (forEachE f xs st) (forEachE f ys)"
  by (induction xs arbitrary: st) (auto simp: bindE_def split: sum.splits)

lemma map_has_iff: "map_has m k \<longleftrightarrow> k \<in> set (map fst m)"
  by (simp add: map_has_def map_of_eq_None_iff)

lemma heapExt_refl [simp]: "heapExt H H"
  by (simp add: heapExt_def)

lemma heapExt_trans:
  assumes "heapExt H1 H2" "heapExt H2 H3"
  shows "heapExt H1 H3"
proof -
  have le: "nextArr H1 \<le> nextArr H2" "nextArr H2 \<le> nextArr H3"
    using assms by (simp_all add: heapExt_def)
  have "prefix (arrays H1 r) (arrays H3 r) \<and> (arrays H1 r = [] \<longrightarrow> arrays H3 r = [])"
    if r: "r < nextArr H1" for r
  proof -
    from r le have r2: "r < nextArr H2" by simp
    from assms r r2 have "prefix (arrays H1 r) (arrays H2 r)" "prefix (arrays H2 r) (arrays H3 r)"
      by (simp_all add: heapExt_def)
    then have "prefix (arrays H1 r) (arrays H3 r)"
      by (rule prefix_order.order_trans)
    moreover from assms r r2 have "arrays H1 r = [] \<longrightarrow> arrays H3 r = []"
      by (simp add: heapExt_def)
    ultimately show ?thesis by simp
  qed
  with le show ?thesis by (simp add: heapExt_def)
qed

lemma heapExt_newArray: "newArray xs H = (r, H') \<Longrightarrow> heapExt H H'"
  by (auto simp: heapExt_def newArray_def)

lemma heapExt_push: "arrays H r \<noteq> [] \<or> nextArr H \<le> r \<Longrightarrow> heapExt H (push r xs H)"
  by (auto simp: heapExt_def push_def)

lemma heapExt_nonempty:
  "heapExt H H' \<Longrightarrow> r < nextArr H \<Longrightarrow> arrays H r \<noteq> [] \<Longrightarrow> r < nextArr H' \<and> arrays H' r \<noteq> []"
  by (fastforce simp: heapExt_def)

lemma refsOK_Nil [simp]: "refsOK H []"
  by (simp add: refsOK_def)

lemma update_set: "set (AList.update k v al) \<subseteq> insert (k, v) (set al)"
  by (induction al) auto

lemma refsOK_update:
  assumes "refsOK H hs" "r < nextArr H" "arrays H r \<noteq> []"
  shows "refsOK H (AList.update k r hs)"
  unfolding refsOK_def
proof
  fix e assume "e \<in> set (AList.update k r hs)"
  with update_set [of k r hs] have "e = (k, r) \<or> e \<in> set hs" by blast
  with assms show "snd e < nextArr H \<and> arrays H (snd e) \<noteq> []"
    unfolding refsOK_def by auto
qed

lemma refsOK_delete: "refsOK H hs \<Longrightarrow> refsOK H (AList.delete k hs)"
  unfolding refsOK_def AList.delete_eq by simp

lemma refsOK_ext: "refsOK H hs \<Longrightarrow> heapExt H H' \<Longrightarrow> refsOK H' hs"
  unfolding refsOK_def using heapExt_nonempty by blast

lemma refsOK_lookup:
  "refsOK H hs \<Longrightarrow> map_of hs k = Some r \<Longrightarrow> r < nextArr H \<and> arrays H r \<noteq> []"
  by (auto simp: refsOK_def dest!: map_of_SomeD)

lemma mapsOK_I:
  "headers ob = Some hs \<Longrightarrow> map fst hs = map fst (normalizedNames ob) \<Longrightarrow> distinct (map fst hs) \<Longrightarrow>
   refsOK H hs \<Longrightarrow> mapsOK H ob"
  by (simp add: mapsOK_def)

lemma mapsOK_D:
  assumes "mapsOK H ob"
  obtains hs where "headers ob = Some hs" "map fst hs = map fst (normalizedNames ob)"
    "distinct (map fst hs)" "refsOK H hs"
proof (cases "headers ob")
  case None
  with assms show ?thesis by (simp add: mapsOK_def)
next
  case (Some hs)
  have "mapsOK H ob =
          (map fst hs = map fst (normalizedNames ob) \<and> distinct (map fst hs) \<and> refsOK H hs)"
    by (simp add: mapsOK_def Some)
  with assms Some that show ?thesis by blast
qed

lemma mapsOK_ext: "mapsOK H ob \<Longrightarrow> heapExt H H' \<Longrightarrow> mapsOK H' ob"
  by (erule mapsOK_D, rule mapsOK_I) (auto dest: refsOK_ext)

lemma maybeSet_fields [simp]:
  "headers (maybeSetNormalizedName n k ob) = headers ob"
  "lazyInit (maybeSetNormalizedName n k ob) = lazyInit ob"
  "lazyUpdate (maybeSetNormalizedName n k ob) = lazyUpdate ob"
  by (simp_all add: maybeSetNormalizedName_def)

lemma maybeSet_keys:
  "map fst (normalizedNames (maybeSetNormalizedName n k ob)) =
     (if k \<in> set (map fst (normalizedNames ob)) then map fst (normalizedNames ob)
      else map fst (normalizedNames ob) @ [k])"
  by (simp add: maybeSetNormalizedName_def map_has_iff map_set_def AList.update_keys)

lemma deleteKey_ok:
  assumes "mapsOK H ob"
  shows "\<exists>ob'. deleteKey key (ob, H) = Inr (ob', H) \<and> mapsOK H ob' \<and>
           lazyInit ob' = lazyInit ob \<and> lazyUpdate ob' = lazyUpdate ob"
proof -
  from assms obtain hs where hs: "headers ob = Some hs" "map fst hs = map fst (normalizedNames ob)"
    "distinct (map fst hs)" "refsOK H hs"
    by (rule mapsOK_D)
  let ?ob' = "ob\<lparr>headers := Some (map_delete hs key),
                normalizedNames := map_delete (normalizedNames ob) key\<rparr>"
  have "deleteKey key (ob, H) = Inr (?ob', H)"
    by (simp add: deleteKey_def hs)
  moreover have "mapsOK H ?ob'"
    using hs
    by (intro mapsOK_I [where hs = "map_delete hs key"])
       (simp_all add: map_delete_def AList.delete_keys distinct_removeAll refsOK_delete)
  ultimately show ?thesis by auto
qed

lemma asArray_ok:
  assumes "valueOK H v" "asArray v H = (r, H0)"
  shows "heapExt H H0" "r < nextArr H0" "arrays H0 r = valueList H v"
    "\<And>q. q < nextArr H \<Longrightarrow> arrays H0 q = arrays H q"
  using assms
  by (auto simp: asArray_def valueOK_def valueList_def newArray_def heapExt_def split: jsvalue.splits)

lemma heapExt_alloc_push: "heapExt H (push (nextArr H) xs (snd (newArray ys H)))"
  by (simp add: heapExt_def newArray_def push_def)

lemma falsy_None [simp]: "falsy None"
  by (simp add: falsy_def)

lemma applyUpdate_delete_all:
  "uop u = OpD \<Longrightarrow> falsy (uvalue u) \<Longrightarrow>
     applyUpdate u st = deleteKey (toLowerCase (uname u)) st"
  by (cases st) (simp add: applyUpdate_def)

lemma applyUpdate_delete_absent:
  "uop u = OpD \<Longrightarrow> \<not> falsy (uvalue u) \<Longrightarrow> headers ob = Some hs \<Longrightarrow>
   map_of hs (toLowerCase (uname u)) = None \<Longrightarrow> applyUpdate u (ob, H) = Inr (ob, H)"
  by (cases "uvalue u") (simp_all add: applyUpdate_def map_get_def)

lemma applyUpdate_delete_value:
  "uop u = OpD \<Longrightarrow> uvalue u = Some v \<Longrightarrow> \<not> falsy (Some v) \<Longrightarrow> headers ob = Some hs \<Longrightarrow>
   map_of hs (toLowerCase (uname u)) = Some old \<Longrightarrow>
   applyUpdate u (ob, H) =
     (let xs = filter (keepValue H v) (arrays H old)
      in if xs = [] then deleteKey (toLowerCase (uname u)) (ob, snd (newArray xs H))
         else Inr (ob\<lparr>headers := Some (AList.update (toLowerCase (uname u)) (nextArr H) hs)\<rparr>,
                   snd (newArray xs H)))"
  by (simp add: applyUpdate_def map_get_def map_set_def newArray_def Let_def)

lemma applyUpdate_put_empty:
  "uop u \<noteq> OpD \<Longrightarrow> uvalue u = Some v \<Longrightarrow> asArray v H = (value, H0) \<Longrightarrow>
   arrays H0 value = [] \<Longrightarrow> applyUpdate u (ob, H) = Inr (ob, H0)"
  by (cases "uop u") (simp_all add: applyUpdate_def)

lemma applyUpdate_put:
  "uop u \<noteq> OpD \<Longrightarrow> uvalue u = Some v \<Longrightarrow> asArray v H = (value, H0) \<Longrightarrow>
   arrays H0 value \<noteq> [] \<Longrightarrow> headers ob = Some hs \<Longrightarrow>
   applyUpdate u (ob, H) =
     (let key = toLowerCase (uname u);
          (base, H2) = (case (if uop u = OpA then map_of hs key else None) of
                          Some r \<Rightarrow> (r, H0)
                        | None \<Rightarrow> newArray [] H0)
      in Inr (maybeSetNormalizedName (uname u) key ob\<lparr>headers := Some (AList.update key base hs)\<rparr>,
              push base (arrays H2 value) H2))"
  by (cases "uop u") (simp_all add: applyUpdate_def map_get_def map_set_def Let_def)

lemma falsy_Some_ex: "\<not> falsy x \<Longrightarrow> \<exists>v. x = Some v"
  by (cases x) simp_all

lemma applyUpdate_ok:
  assumes ok: "mapsOK H ob" and u: "updateOK H u"
  shows "\<exists>ob' H'. applyUpdate u (ob, H) = Inr (ob', H') \<and> mapsOK H' ob' \<and> heapExt H H' \<and>
           lazyInit ob' = lazyInit ob \<and> lazyUpdate ob' = lazyUpdate ob"
proof -
  from ok obtain hs where hs: "headers ob = Some hs" "map fst hs = map fst (normalizedNames ob)"
    "distinct (map fst hs)" "refsOK H hs"
    by (rule mapsOK_D)
  let ?key = "toLowerCase (uname u)"
  show ?thesis
  proof (cases "uop u = OpD")
    case del: True
    show ?thesis
    proof (cases "falsy (uvalue u)")
      case True
      with del have "applyUpdate u (ob, H) = deleteKey ?key (ob, H)"
        by (rule applyUpdate_delete_all)
      with deleteKey_ok [OF ok, of ?key] show ?thesis by auto
    next
      case nf: False
      then obtain v where v: "uvalue u = Some v" by (auto dest: falsy_Some_ex)
      show ?thesis
      proof (cases "map_of hs ?key")
        case None
        with del nf hs(1) have "applyUpdate u (ob, H) = Inr (ob, H)"
          by (rule applyUpdate_delete_absent)
        with ok show ?thesis by auto
      next
        case (Some old)
        let ?xs = "filter (keepValue H v) (arrays H old)"
        let ?H1 = "snd (newArray ?xs H)"
        have ext: "heapExt H ?H1"
          by (rule heapExt_newArray [of ?xs H "fst (newArray ?xs H)"]) simp
        from nf v have nf': "\<not> falsy (Some v)" by simp
        note eq = applyUpdate_delete_value [OF del v nf' hs(1) Some]
        show ?thesis
        proof (cases "?xs = []")
          case True
          with eq have "applyUpdate u (ob, H) = deleteKey ?key (ob, ?H1)"
            by (simp add: Let_def)
          with deleteKey_ok [OF mapsOK_ext [OF ok ext], of ?key] ext show ?thesis
            by auto
        next
          case False
          let ?ob' = "ob\<lparr>headers := Some (AList.update ?key (nextArr H) hs)\<rparr>"
          from False eq have e: "applyUpdate u (ob, H) = Inr (?ob', ?H1)"
            by (simp add: Let_def)
          from Some have "?key \<in> set (map fst hs)"
            by (metis domI dom_map_of_conv_image_fst set_map)
          then have keys: "map fst (AList.update ?key (nextArr H) hs) = map fst hs"
            by (simp add: AList.update_keys)
          have r1: "refsOK ?H1 hs" using hs(4) ext by (rule refsOK_ext)
          have "refsOK ?H1 (AList.update ?key (nextArr H) hs)"
            using r1 False by (intro refsOK_update) (simp_all add: newArray_def)
          with keys hs have "mapsOK ?H1 ?ob'"
            by (intro mapsOK_I [where hs = "AList.update ?key (nextArr H) hs"]) simp_all
          with e ext show ?thesis by auto
        qed
      qed
    qed
  next
    case put: False
    with u obtain v where v: "uvalue u = Some v" and vok: "valueOK H v"
      by (cases "uvalue u") (auto simp: updateOK_def)
    obtain val H0 where a: "asArray v H = (val, H0)" by (cases "asArray v H")
    note aok = asArray_ok [OF vok a]
    show ?thesis
    proof (cases "arrays H0 val = []")
      case True
      with put v a have "applyUpdate u (ob, H) = Inr (ob, H0)"
        by (rule applyUpdate_put_empty)
      with aok(1) mapsOK_ext [OF ok aok(1)] show ?thesis by auto
    next
      case ne: False
      let ?m = "if uop u = OpA then map_of hs ?key else None"
      obtain base H2 where b: "(case ?m of Some r \<Rightarrow> (r, H0) | None \<Rightarrow> newArray [] H0) = (base, H2)"
        by (cases "case ?m of Some r \<Rightarrow> (r, H0) | None \<Rightarrow> newArray [] H0")
      let ?H3 = "push base (arrays H2 val) H2"
      let ?ob' = "maybeSetNormalizedName (uname u) ?key ob\<lparr>headers := Some (AList.update ?key base hs)\<rparr>"
      have e: "applyUpdate u (ob, H) = Inr (?ob', ?H3)"
        using applyUpdate_put [OF put v a ne hs(1)] b by (simp add: Let_def)
      have r0: "refsOK H0 hs" using hs(4) aok(1) by (rule refsOK_ext)
      have facts: "heapExt H0 ?H3 \<and> base < nextArr ?H3 \<and> arrays ?H3 base \<noteq> []"
      proof (cases ?m)
        case None
        with b have "base = nextArr H0" "H2 = snd (newArray [] H0)"
          by (auto simp: newArray_def)
        with heapExt_alloc_push [of H0 "arrays H2 val" "[]"] ne aok(2) show ?thesis
          by (auto simp: newArray_def push_def)
      next
        case (Some r)
        with b have br: "base = r" "H2 = H0" by auto
        from Some have "map_of hs ?key = Some r" by (auto split: if_splits)
        with r0 have "r < nextArr H0 \<and> arrays H0 r \<noteq> []" by (rule refsOK_lookup)
        with br heapExt_push [of H0 r "arrays H0 val"] show ?thesis
          by (auto simp: push_def)
      qed
      then have ext3: "heapExt H0 ?H3" by blast
      have ext: "heapExt H ?H3" using aok(1) ext3 by (rule heapExt_trans)
      have "refsOK ?H3 hs" using r0 ext3 by (rule refsOK_ext)
      then have "refsOK ?H3 (AList.update ?key base hs)"
        using facts by (intro refsOK_update) simp_all
      moreover have "map fst (AList.update ?key base hs) = map fst (normalizedNames ?ob')"
        using hs(2) by (simp add: AList.update_keys maybeSet_keys)
      moreover have "distinct (map fst (AList.update ?key base hs))"
        using hs(3) by (rule AList.distinct_update)
      ultimately have "mapsOK ?H3 ?ob'"
        by (intro mapsOK_I [where hs = "AList.update ?key base hs"]) simp_all
      with e ext show ?thesis by auto
    qed
  qed
qed

lemma setLazy_fields [simp]:
  "headers (setLazy li lu ob) = headers ob"
  "normalizedNames (setLazy li lu ob) = normalizedNames ob"
  "lazyInit (setLazy li lu ob) = li"
  "lazyUpdate (setLazy li lu ob) = lu"
  by (simp_all add: setLazy_def)

lemma deleteKey_lazy:
  "deleteKey k (setLazy li lu ob, H) = map_sum id (apfst (setLazy li lu)) (deleteKey k (ob, H))"
  by (simp add: deleteKey_def setLazy_def split: option.splits)

lemma maybeSet_lazy:
  "maybeSetNormalizedName n k (setLazy li lu ob) = setLazy li lu (maybeSetNormalizedName n k ob)"
  by (simp add: maybeSetNormalizedName_def setLazy_def)

lemma applyUpdate_put_None:
  "uop u \<noteq> OpD \<Longrightarrow> uvalue u = None \<Longrightarrow> applyUpdate u st = Inl TypeError"
  by (cases st; cases "uop u") (simp_all add: applyUpdate_def)

lemma applyUpdate_lazy:
  assumes hs: "headers ob = Some hs"
  shows "applyUpdate u (setLazy li lu ob, H) =
           map_sum id (apfst (setLazy li lu)) (applyUpdate u (ob, H))"
proof -
  have hs': "headers (setLazy li lu ob) = Some hs" using hs by simp
  let ?key = "toLowerCase (uname u)"
  show ?thesis
  proof (cases "uop u = OpD")
    case del: True
    show ?thesis
    proof (cases "falsy (uvalue u)")
      case True
      then show ?thesis
        by (simp add: applyUpdate_delete_all [OF del True] deleteKey_lazy)
    next
      case nf: False
      then obtain v where v: "uvalue u = Some v" by (auto dest: falsy_Some_ex)
      from nf v have nf': "\<not> falsy (Some v)" by simp
      show ?thesis
      proof (cases "map_of hs ?key")
        case None
        then show ?thesis
          by (simp add: applyUpdate_delete_absent [OF del nf hs None]
                applyUpdate_delete_absent [OF del nf hs' None])
      next
        case (Some old)
        show ?thesis
          by (simp add: applyUpdate_delete_value [OF del v nf' hs Some]
                applyUpdate_delete_value [OF del v nf' hs' Some] Let_def deleteKey_lazy)
      qed
    qed
  next
    case put: False
    show ?thesis
    proof (cases "uvalue u")
      case None
      then show ?thesis by (simp add: applyUpdate_put_None [OF put None])
    next
      case (Some v)
      obtain val H0 where a: "asArray v H = (val, H0)" by (cases "asArray v H")
      show ?thesis
      proof (cases "arrays H0 val = []")
        case True
        then show ?thesis by (simp add: applyUpdate_put_empty [OF put Some a True])
      next
        case False
        show ?thesis
          by (simp add: applyUpdate_put [OF put Some a False hs]
                applyUpdate_put [OF put Some a False hs'] Let_def maybeSet_lazy
                split: prod.splits)
      qed
    qed
  qed
qed

lemma valueOK_ext: "valueOK H v \<Longrightarrow> heapExt H H' \<Longrightarrow> valueOK H' v"
  by (cases v) (auto simp: valueOK_def heapExt_def)

lemma updateOK_ext: "updateOK H u \<Longrightarrow> heapExt H H' \<Longrightarrow> updateOK H' u"
  by (cases "uvalue u") (auto simp: updateOK_def dest: valueOK_ext)

lemma applyUpdates_ok:
  assumes "mapsOK H ob" "\<forall>u \<in> set us. updateOK H u"
  shows "\<exists>ob' H'. forEachE applyUpdate us (ob, H) = Inr (ob', H') \<and> mapsOK H' ob' \<and>
           heapExt H H' \<and> lazyInit ob' = lazyInit ob \<and> lazyUpdate ob' = lazyUpdate ob"
  using assms
proof (induction us arbitrary: ob H)
  case Nil
  then show ?case by simp
next
  case (Cons u us)
  from Cons.prems have "updateOK H u" by simp
  with Cons.prems(1) obtain ob1 H1 where
    s1: "applyUpdate u (ob, H) = Inr (ob1, H1)" "mapsOK H1 ob1" "heapExt H H1"
        "lazyInit ob1 = lazyInit ob" "lazyUpdate ob1 = lazyUpdate ob"
    using applyUpdate_ok by blast
  from Cons.prems s1(3) have "\<forall>u \<in> set us. updateOK H1 u"
    by (auto dest: updateOK_ext)
  with Cons.IH [OF s1(2)] obtain ob2 H2 where
    s2: "forEachE applyUpdate us (ob1, H1) = Inr (ob2, H2)" "mapsOK H2 ob2" "heapExt H1 H2"
        "lazyInit ob2 = lazyInit ob1" "lazyUpdate ob2 = lazyUpdate ob1"
    by blast
  from s1 s2 heapExt_trans [OF s1(3) s2(3)] show ?case by simp
qed

lemma applyUpdates_lazy:
  assumes "mapsOK H ob" "\<forall>u \<in> set us. updateOK H u"
  shows "forEachE applyUpdate us (setLazy li lu ob, H) =
           map_sum id (apfst (setLazy li lu)) (forEachE applyUpdate us (ob, H))"
  using assms
proof (induction us arbitrary: ob H)
  case Nil
  then show ?case by simp
next
  case (Cons u us)
  from Cons.prems have "updateOK H u" by simp
  with Cons.prems(1) obtain ob1 H1 where
    s1: "applyUpdate u (ob, H) = Inr (ob1, H1)" "mapsOK H1 ob1" "heapExt H H1"
    using applyUpdate_ok by blast
  from Cons.prems s1(3) have us: "\<forall>u \<in> set us. updateOK H1 u"
    by (auto dest: updateOK_ext)
  from Cons.prems(1) obtain hs where "headers ob = Some hs" by (rule mapsOK_D)
  then have "applyUpdate u (setLazy li lu ob, H) = Inr (setLazy li lu ob1, H1)"
    by (simp add: applyUpdate_lazy s1(1))
  with s1(1) Cons.IH [OF s1(2) us] show ?case by simp
qed

lemma firstNames_snoc:
  "firstNames seen (ps @ [p]) =
     firstNames seen ps @
       (if toLowerCase (fst p) \<in> set seen \<union> (\<lambda>q. toLowerCase (fst q)) ` set ps then []
        else [fst p])"
  by (induction ps arbitrary: seen) auto

lemma firstNames_keys:
  "set (map toLowerCase (firstNames seen ps)) = (\<lambda>q. toLowerCase (fst q)) ` set ps - set seen"
  by (induction ps arbitrary: seen) auto

lemma valuesOf_snoc:
  "valuesOf k (ps @ [p]) = valuesOf k ps @ (if toLowerCase (fst p) = k then [snd p] else [])"
  by (simp add: valuesOf_def)

lemma valuesOf_Nil_iff: "valuesOf k ps = [] \<longleftrightarrow> k \<notin> (\<lambda>q. toLowerCase (fst q)) ` set ps"
  by (auto simp: valuesOf_def filter_empty_conv)

lemma update_absent: "k \<notin> fst ` set al \<Longrightarrow> AList.update k v al = al @ [(k, v)]"
  by (induction al) auto

lemma indexOfFrom_colon:
  "indexOfFrom i line '':'' =
     (if CHR '':'' \<in> set line then int (i + length (takeWhile (\<lambda>c. c \<noteq> CHR '':'') line))
      else - 1)"
  by (induction line arbitrary: i) auto

lemma indexOf_colon:
  "indexOf line '':'' =
     (if CHR '':'' \<in> set line then int (length (namePart line)) else - 1)"
  by (simp add: indexOf_def indexOfFrom_colon namePart_def)

lemma slice_name:
  "CHR '':'' \<in> set line \<Longrightarrow> slice line 0 (int (length (namePart line))) = namePart line"
  by (simp add: slice_def namePart_def Let_def length_takeWhile_le min_def
        takeWhile_eq_take [symmetric])

lemma sliceFrom_value:
  "CHR '':'' \<in> set line \<Longrightarrow>
     sliceFrom line (int (length (namePart line)) + 1) = valuePart line"
proof -
  assume "CHR '':'' \<in> set line"
  then have "length (takeWhile (\<lambda>c. c \<noteq> CHR '':'') line) < length line"
    by (induction line) auto
  then have "sliceFrom line (int (length (namePart line)) + 1) =
               drop (Suc (length (namePart line))) line"
    by (simp add: sliceFrom_def slice_def Let_def namePart_def min_def nat_add_distrib)
  also have "\<dots> = valuePart line"
    by (simp add: valuePart_def namePart_def dropWhile_eq_drop drop_Suc tl_drop)
  finally show ?thesis .
qed

lemma headerLine_index:
  "headerLine line =
     (let i = indexOf line '':''
      in if i > 0 then Some (slice line 0 i, trim (sliceFrom line (i + 1))) else None)"
  by (auto simp: headerLine_def indexOf_colon slice_name sliceFrom_value Let_def)

lemma parseLine_skip: "headerLine l = None \<Longrightarrow> parseLine l st = Inr st"
  by (cases st) (simp add: parseLine_def headerLine_index Let_def split: if_splits)

lemma parseLine_step:
  assumes inv: "rawInv ps (ob, H)" and l: "headerLine l = Some p"
  shows "\<exists>ob' H'. parseLine l (ob, H) = Inr (ob', H') \<and> rawInv (ps @ [p]) (ob', H') \<and>
           heapExt H H' \<and> lazyInit ob' = lazyInit ob \<and> lazyUpdate ob' = lazyUpdate ob"
proof -
  obtain n v where p: "p = (n, v)" by (cases p)
  let ?k = "toLowerCase n"
  from inv obtain hs where hs: "headers ob = Some hs"
    and ns: "normalizedNames ob = map (\<lambda>n. (toLowerCase n, n)) (firstNames [] ps)"
    and keys: "map fst hs = map toLowerCase (firstNames [] ps)"
    and dk: "distinct (map fst hs)" and dr: "distinct (map snd hs)"
    and arr: "\<forall>e \<in> set hs. snd e < nextArr H \<and> arrays H (snd e) = valuesOf (fst e) ps"
    by (cases "headers ob") (auto simp: rawInv_def)
  have nkeys: "map fst (normalizedNames ob) = map fst hs"
    by (simp add: ns keys comp_def)
  have kset: "set (map fst hs) = (\<lambda>q. toLowerCase (fst q)) ` set ps"
    using firstNames_keys [of "[]" ps] by (simp add: keys)
  let ?ob1 = "maybeSetNormalizedName n ?k ob"
  from l p have idx: "indexOf l '':'' > 0" "slice l 0 (indexOf l '':'') = n"
    "trim (sliceFrom l (indexOf l '':'' + 1)) = v"
    by (auto simp: headerLine_index Let_def split: if_splits)
  show ?thesis
  proof (cases "?k \<in> set (map fst hs)")
    case True
    then obtain r where r: "map_of hs ?k = Some r"
      by (metis map_of_eq_None_iff not_None_eq set_map)
    then have rin: "(?k, r) \<in> set hs" by (rule map_of_SomeD)
    have ob1: "?ob1 = ob"
      using True by (simp add: maybeSetNormalizedName_def map_has_iff nkeys)
    have e: "parseLine l (ob, H) = Inr (ob, push r [v] H)"
      using idx True r by (simp add: parseLine_def Let_def ob1 hs map_has_iff map_get_def)
    from arr rin have rok: "r < nextArr H" "arrays H r = valuesOf ?k ps" by auto
    from True kset have "valuesOf ?k ps \<noteq> []" by (simp add: valuesOf_Nil_iff)
    with rok have ext: "heapExt H (push r [v] H)" by (intro heapExt_push) simp
    have names: "firstNames [] (ps @ [p]) = firstNames [] ps"
      using True kset by (simp add: firstNames_snoc p)
    have "\<forall>e \<in> set hs. snd e < nextArr (push r [v] H) \<and>
            arrays (push r [v] H) (snd e) = valuesOf (fst e) (ps @ [p])"
    proof
      fix e assume ein: "e \<in> set hs"
      show "snd e < nextArr (push r [v] H) \<and>
            arrays (push r [v] H) (snd e) = valuesOf (fst e) (ps @ [p])"
      proof (cases "snd e = r")
        case True
        with ein rin dr have "fst e = ?k"
          by (metis distinct_map inj_onD prod.collapse snd_conv fst_conv)
        with True rok show ?thesis
          by (simp add: push_def valuesOf_snoc p)
      next
        case False
        with ein rin have "fst e \<noteq> ?k"
          using dk by (metis eq_key_imp_eq_value prod.collapse)
        with False arr ein show ?thesis
          by (simp add: push_def valuesOf_snoc p)
      qed
    qed
    with hs ns keys dk dr names have "rawInv (ps @ [p]) (ob, push r [v] H)"
      by (simp add: rawInv_def)
    with e ext show ?thesis by auto
  next
    case False
    let ?r = "nextArr H"
    let ?H' = "snd (newArray [v] H)"
    let ?ob' = "?ob1\<lparr>headers := Some (hs @ [(?k, ?r)])\<rparr>"
    from False have nomap: "map_of hs ?k = None"
      by (simp add: map_of_eq_None_iff)
    have upd: "AList.update ?k ?r hs = hs @ [(?k, ?r)]"
      using False by (intro update_absent) simp
    have e: "parseLine l (ob, H) = Inr (?ob', ?H')"
      using idx False nomap
      by (simp add: parseLine_def Let_def hs map_has_iff map_get_def map_set_def upd newArray_def)
    have ext: "heapExt H ?H'"
      by (rule heapExt_newArray [of "[v]" H ?r]) (simp add: newArray_def)
    have names: "firstNames [] (ps @ [p]) = firstNames [] ps @ [n]"
      using False kset by (simp add: firstNames_snoc p)
    from False nkeys have "?k \<notin> fst ` set (normalizedNames ob)"
      by (metis set_map)
    then have "AList.update ?k n (normalizedNames ob) = normalizedNames ob @ [(?k, n)]"
      by (rule update_absent)
    with False have ns': "normalizedNames ?ob' = map (\<lambda>n. (toLowerCase n, n)) (firstNames [] (ps @ [p]))"
      by (simp add: maybeSetNormalizedName_def map_has_iff nkeys map_set_def names ns [symmetric])
    have fresh: "\<forall>e \<in> set hs. snd e \<noteq> ?r" using arr by auto
    have "\<forall>e \<in> set (hs @ [(?k, ?r)]). snd e < nextArr ?H' \<and>
            arrays ?H' (snd e) = valuesOf (fst e) (ps @ [p])"
    proof
      fix e assume "e \<in> set (hs @ [(?k, ?r)])"
      then consider "e \<in> set hs" | "e = (?k, ?r)" by auto
      then show "snd e < nextArr ?H' \<and> arrays ?H' (snd e) = valuesOf (fst e) (ps @ [p])"
      proof cases
        case 1
        then have "fst e \<in> fst ` set hs" by (rule imageI)
        moreover from False have "?k \<notin> fst ` set hs" by simp
        ultimately have "fst e \<noteq> ?k" by metis
        with 1 arr fresh show ?thesis
          by (simp add: newArray_def valuesOf_snoc p less_Suc_eq)
      next
        case 2
        from False kset have "valuesOf ?k ps = []" by (simp add: valuesOf_Nil_iff)
        with 2 show ?thesis
          by (simp add: newArray_def valuesOf_snoc p)
      qed
    qed
    moreover have "distinct (map snd (hs @ [(?k, ?r)]))"
      using dr fresh by auto
    moreover have "distinct (map fst (hs @ [(?k, ?r)]))"
      using dk False by auto
    ultimately have "rawInv (ps @ [p]) (?ob', ?H')"
      using ns' keys names by (simp add: rawInv_def)
    with e ext show ?thesis by auto
  qed
qed

lemma parseLines:
  assumes "rawInv ps (ob, H)"
  shows "\<exists>ob' H'. forEachE parseLine ls (ob, H) = Inr (ob', H') \<and>
           rawInv (ps @ List.map_filter headerLine ls) (ob', H') \<and> heapExt H H' \<and>
           lazyInit ob' = lazyInit ob \<and> lazyUpdate ob' = lazyUpdate ob"
  using assms
proof (induction ls arbitrary: ps ob H)
  case Nil
  then show ?case by (simp add: map_filter_simps)
next
  case (Cons l ls)
  show ?case
  proof (cases "headerLine l")
    case None
    with Cons.IH [OF Cons.prems] show ?thesis
      by (simp add: parseLine_skip map_filter_simps)
  next
    case (Some p)
    from parseLine_step [OF Cons.prems Some] obtain ob1 H1 where
      s1: "parseLine l (ob, H) = Inr (ob1, H1)" "rawInv (ps @ [p]) (ob1, H1)" "heapExt H H1"
          "lazyInit ob1 = lazyInit ob" "lazyUpdate ob1 = lazyUpdate ob"
      by blast
    from Cons.IH [OF s1(2)] obtain ob2 H2 where
      s2: "forEachE parseLine ls (ob1, H1) = Inr (ob2, H2)"
          "rawInv ((ps @ [p]) @ List.map_filter headerLine ls) (ob2, H2)" "heapExt H1 H2"
          "lazyInit ob2 = lazyInit ob1" "lazyUpdate ob2 = lazyUpdate ob1"
      by blast
    from s1 s2 Some heapExt_trans [OF s1(3) s2(3)] show ?thesis
      by (simp add: map_filter_simps)
  qed
qed

lemma initFromString_ok:
  assumes "normalizedNames ob = []"
  shows "\<exists>ob' H'. initFromString s (ob, H) = Inr (ob', H') \<and> rawInv (rawPairs s) (ob', H') \<and>
           heapExt H H' \<and> lazyInit ob' = lazyInit ob \<and> lazyUpdate ob' = lazyUpdate ob"
proof -
  have "rawInv [] (ob\<lparr>headers := Some []\<rparr>, H)"
    using assms by (simp add: rawInv_def)
  from parseLines [OF this, of "splitStr (CHR 0x0A) s"] show ?thesis
    by (simp add: initFromString_def rawPairs_def)
qed

lemma rawInv_mapsOK:
  assumes "rawInv ps (ob, H)"
  shows "mapsOK H ob"
proof -
  from assms obtain hs where hs: "headers ob = Some hs"
    and ns: "normalizedNames ob = map (\<lambda>n. (toLowerCase n, n)) (firstNames [] ps)"
    and keys: "map fst hs = map toLowerCase (firstNames [] ps)"
    and dk: "distinct (map fst hs)"
    and arr: "\<forall>e \<in> set hs. snd e < nextArr H \<and> arrays H (snd e) = valuesOf (fst e) ps"
    by (cases "headers ob") (auto simp: rawInv_def)
  have kset: "set (map fst hs) = (\<lambda>q. toLowerCase (fst q)) ` set ps"
    using firstNames_keys [of "[]" ps] by (simp add: keys)
  have "refsOK H hs"
    unfolding refsOK_def
  proof
    fix e assume e: "e \<in> set hs"
    then have "fst e \<in> set (map fst hs)" by simp
    with kset have "valuesOf (fst e) ps \<noteq> []" by (simp add: valuesOf_Nil_iff)
    with arr e show "snd e < nextArr H \<and> arrays H (snd e) \<noteq> []" by simp
  qed
  with hs dk show ?thesis
    by (intro mapsOK_I [where hs = hs]) (simp_all add: ns keys comp_def)
qed

lemma parseEntry_ok:
  assumes ok: "mapsOK H ob" and v: "valueOK H (snd e)"
  shows "\<exists>ob' H'. parseEntry e (ob, H) = Inr (ob', H') \<and> mapsOK H' ob' \<and> heapExt H H' \<and>
           lazyInit ob' = lazyInit ob \<and> lazyUpdate ob' = lazyUpdate ob"
proof -
  from ok obtain hs where hs: "headers ob = Some hs" "map fst hs = map fst (normalizedNames ob)"
    "distinct (map fst hs)" "refsOK H hs"
    by (rule mapsOK_D)
  obtain vals H1 where a: "asArray (snd e) H = (vals, H1)" by (cases "asArray (snd e) H")
  note aok = asArray_ok [OF v a]
  let ?key = "toLowerCase (fst e)"
  show ?thesis
  proof (cases "arrays H1 vals = []")
    case True
    with a have "parseEntry e (ob, H) = Inr (ob, H1)"
      by (simp add: parseEntry_def Let_def)
    with aok(1) mapsOK_ext [OF ok aok(1)] show ?thesis by auto
  next
    case False
    let ?ob' = "maybeSetNormalizedName (fst e) ?key (ob\<lparr>headers := Some (AList.update ?key vals hs)\<rparr>)"
    from False a hs(1) have eq: "parseEntry e (ob, H) = Inr (?ob', H1)"
      by (simp add: parseEntry_def Let_def map_set_def)
    have "refsOK H1 hs" using hs(4) aok(1) by (rule refsOK_ext)
    then have "refsOK H1 (AList.update ?key vals hs)"
      using aok(2) False by (rule refsOK_update)
    moreover have "map fst (AList.update ?key vals hs) = map fst (normalizedNames ?ob')"
      using hs(2) by (simp add: AList.update_keys maybeSet_keys)
    moreover have "distinct (map fst (AList.update ?key vals hs))"
      using hs(3) by (rule AList.distinct_update)
    ultimately have "mapsOK H1 ?ob'"
      by (intro mapsOK_I [where hs = "AList.update ?key vals hs"]) simp_all
    with eq aok(1) show ?thesis by auto
  qed
qed

lemma parseEntries_ok:
  assumes "mapsOK H ob" "\<forall>e \<in> set es. valueOK H (snd e)"
  shows "\<exists>ob' H'. forEachE parseEntry es (ob, H) = Inr (ob', H') \<and> mapsOK H' ob' \<and>
           heapExt H H' \<and> lazyInit ob' = lazyInit ob \<and> lazyUpdate ob' = lazyUpdate ob"
  using assms
proof (induction es arbitrary: ob H)
  case Nil
  then show ?case by simp
next
  case (Cons e es)
  from Cons.prems have "valueOK H (snd e)" by simp
  with Cons.prems(1) obtain ob1 H1 where
    s1: "parseEntry e (ob, H) = Inr (ob1, H1)" "mapsOK H1 ob1" "heapExt H H1"
        "lazyInit ob1 = lazyInit ob" "lazyUpdate ob1 = lazyUpdate ob"
    using parseEntry_ok by blast
  from Cons.prems s1(3) have "\<forall>e \<in> set es. valueOK H1 (snd e)"
    by (auto dest: valueOK_ext)
  with Cons.IH [OF s1(2)] obtain ob2 H2 where
    s2: "forEachE parseEntry es (ob1, H1) = Inr (ob2, H2)" "mapsOK H2 ob2" "heapExt H1 H2"
        "lazyInit ob2 = lazyInit ob1" "lazyUpdate ob2 = lazyUpdate ob1"
    by blast
  from s1 s2 heapExt_trans [OF s1(3) s2(3)] show ?case by simp
qed

lemma initFromRecord_ok:
  assumes "normalizedNames ob = []" "\<forall>e \<in> set es. valueOK H (snd e)"
  shows "\<exists>ob' H'. initFromRecord es (ob, H) = Inr (ob', H') \<and> mapsOK H' ob' \<and>
           heapExt H H' \<and> lazyInit ob' = lazyInit ob \<and> lazyUpdate ob' = lazyUpdate ob"
proof -
  have "mapsOK H (ob\<lparr>headers := Some []\<rparr>)"
    using assms(1) by (simp add: mapsOK_def)
  from parseEntries_ok [OF this assms(2)] show ?thesis
    by (simp add: initFromRecord_def)
qed

lemma map_of_append_absent: "k \<notin> fst ` set xs \<Longrightarrow> map_of (xs @ ys) k = map_of ys k"
  by (simp add: map_add_def map_of_eq_None_iff [THEN iffD2] split: option.splits)

lemma copyKeys_loop:
  assumes "headers other = Some (pre @ suf)" "normalizedNames other = npre @ nsuf"
    "map fst suf = map fst nsuf" "distinct (map fst (pre @ suf))" "map fst pre = map fst npre"
    "headers this = Some pre" "normalizedNames this = npre"
  shows "forEachE (copyKey other) (map fst suf) (this, H) =
           Inr (this\<lparr>headers := Some (pre @ suf), normalizedNames := npre @ nsuf\<rparr>, H)"
  using assms
proof (induction suf arbitrary: pre npre nsuf this)
  case Nil
  then show ?case by simp
next
  case (Cons e suf)
  from Cons.prems(3) obtain f nsuf' where f: "nsuf = f # nsuf'" "fst f = fst e"
    "map fst suf = map fst nsuf'"
    by (cases nsuf) auto
  let ?k = "fst e"
  from Cons.prems(4) have notin: "?k \<notin> fst ` set pre" by auto
  with Cons.prems(5) have notin': "?k \<notin> fst ` set npre" by (metis set_map)
  have "map_of (pre @ e # suf) ?k = map_of (e # suf) ?k"
    using notin by (rule map_of_append_absent)
  then have g1: "map_of (pre @ e # suf) ?k = Some (snd e)"
    by simp
  have "map_of (npre @ f # nsuf') ?k = map_of (f # nsuf') ?k"
    using notin' by (rule map_of_append_absent)
  then have g2: "map_of (npre @ f # nsuf') ?k = Some (snd f)"
    using f(2) by simp
  let ?this' = "this\<lparr>headers := Some (pre @ [e]), normalizedNames := npre @ [f]\<rparr>"
  from f(2) have ff: "(fst e, snd f) = f" by (metis prod.collapse)
  have step: "copyKey other ?k (this, H) = Inr (?this', H)"
    using Cons.prems(1,2,6,7) g1 g2 f(1,2) notin notin'
    by (simp add: copyKey_def map_get_def map_set_def update_absent ff)
  have "forEachE (copyKey other) (map fst suf) (?this', H) =
          Inr (?this'\<lparr>headers := Some ((pre @ [e]) @ suf),
                       normalizedNames := (npre @ [f]) @ nsuf'\<rparr>, H)"
    using Cons.prems f by (intro Cons.IH) simp_all
  with step f(1) show ?case by simp
qed

lemma copyFrom_ok:
  assumes "mapsOK H other" "headers this = Some []" "normalizedNames this = []"
  shows "copyFrom other (this, H) =
           Inr (this\<lparr>headers := headers other, normalizedNames := normalizedNames other\<rparr>, H)"
proof -
  from assms(1) obtain hs where hs: "headers other = Some hs"
    "map fst hs = map fst (normalizedNames other)" "distinct (map fst hs)"
    by (rule mapsOK_D)
  from copyKeys_loop [of other "[]" hs "[]" "normalizedNames other" this H] hs assms(2,3)
  show ?thesis by (simp add: copyFrom_def map_keys_def)
qed

lemma updatesOK_ext: "updatesOK H ob \<Longrightarrow> heapExt H H' \<Longrightarrow> updatesOK H' ob"
  by (cases "lazyUpdate ob") (auto simp: updatesOK_def dest: updateOK_ext)

lemma mapsOK_cong: "sameMaps a b \<Longrightarrow> mapsOK H a = mapsOK H b"
  by (simp add: mapsOK_def sameMaps_def split: option.splits)

lemma mapsOK_lazyInit [simp]: "mapsOK H (ob\<lparr>lazyInit := x\<rparr>) = mapsOK H ob"
  by (simp add: mapsOK_def split: option.splits)

lemma mapsOK_lazyUpdate [simp]: "mapsOK H (ob\<lparr>lazyUpdate := x\<rparr>) = mapsOK H ob"
  by (simp add: mapsOK_def split: option.splits)

lemma rawInv_lazyInit [simp]: "rawInv ps (ob\<lparr>lazyInit := x\<rparr>, H) = rawInv ps (ob, H)"
  by (simp add: rawInv_def split: option.splits)

lemma finishInit_ok:
  assumes "mapsOK H ob" "updatesOK H ob"
  shows "\<exists>ob' H'. finishInit (ob, H) = Inr (ob', H') \<and> mapsOK H' ob' \<and> heapExt H H' \<and>
           lazyInit ob' = LNull \<and> lazyUpdate ob' = None"
proof (cases "lazyUpdate ob")
  case None
  have "mapsOK H (ob\<lparr>lazyInit := LNull\<rparr>)"
    using assms(1) by simp
  with None show ?thesis by (simp add: finishInit_def)
next
  case (Some us)
  have m: "mapsOK H (ob\<lparr>lazyInit := LNull\<rparr>)"
    using assms(1) by simp
  from assms(2) Some have "\<forall>u \<in> set us. updateOK H u" by (simp add: updatesOK_def)
  from applyUpdates_ok [OF m this] obtain ob1 H1 where
    s: "forEachE applyUpdate us (ob\<lparr>lazyInit := LNull\<rparr>, H) = Inr (ob1, H1)" "mapsOK H1 ob1"
       "heapExt H H1" "lazyInit ob1 = LNull"
    by auto
  have "mapsOK H1 (ob1\<lparr>lazyUpdate := None\<rparr>)"
    using s(2) by simp
  with s Some show ?thesis by (simp add: finishInit_def)
qed

lemma objOK_mono:
  assumes "objOK \<sigma> ob" "heapExt (hp \<sigma>) (hp \<sigma>')" "nextObj \<sigma> \<le> nextObj \<sigma>'"
    "\<And>q. q < nextObj \<sigma> \<Longrightarrow> isRoot (lazyInit (objs \<sigma> q)) \<Longrightarrow> isRoot (lazyInit (objs \<sigma>' q))"
  shows "objOK \<sigma>' ob"
proof (cases "lazyInit ob")
  case LNull
  with assms(1,2) show ?thesis by (auto simp: objOK_def dest: mapsOK_ext)
next
  case (LParent p)
  with assms(1) have p: "p < nextObj \<sigma>" "isRoot (lazyInit (objs \<sigma> p))" "headers ob = Some []"
    "normalizedNames ob = []" "updatesOK (hp \<sigma>) ob"
    by (simp_all add: objOK_def)
  from p(1,2) have "isRoot (lazyInit (objs \<sigma>' p))" by (rule assms(4))
  moreover from p(5) assms(2) have "updatesOK (hp \<sigma>') ob" by (rule updatesOK_ext)
  ultimately show ?thesis using LParent p assms(3) by (simp add: objOK_def)
next
  case (LString s)
  with assms(1) show ?thesis by (simp add: objOK_def)
next
  case (LRecord es)
  with assms(1,2) show ?thesis by (auto simp: objOK_def dest: valueOK_ext)
qed

lemma storeOK_put:
  assumes ok: "storeOK \<sigma>" and m: "mapsOK H ob" and l: "lazyInit ob = LNull" "lazyUpdate ob = None"
    and ext: "heapExt (hp \<sigma>) H"
  shows "storeOK (\<sigma>\<lparr>objs := (objs \<sigma>)(h := ob), hp := H\<rparr>)"
  unfolding storeOK_def
proof (intro allI impI)
  let ?\<sigma>' = "\<sigma>\<lparr>objs := (objs \<sigma>)(h := ob), hp := H\<rparr>"
  fix q assume q: "q < nextObj ?\<sigma>'"
  show "objOK ?\<sigma>' (objs ?\<sigma>' q)"
  proof (cases "q = h")
    case True
    with m l show ?thesis by (simp add: objOK_def)
  next
    case False
    from ok q have "objOK \<sigma> (objs \<sigma> q)" by (simp add: storeOK_def)
    then have "objOK ?\<sigma>' (objs \<sigma> q)"
    proof (rule objOK_mono)
      show "heapExt (hp \<sigma>) (hp ?\<sigma>')" using ext by simp
      show "nextObj \<sigma> \<le> nextObj ?\<sigma>'" by simp
      show "isRoot (lazyInit (objs ?\<sigma>' r))" if "isRoot (lazyInit (objs \<sigma> r))" for r
        using that l by (simp add: isRoot_def)
    qed
    with False show ?thesis by simp
  qed
qed

lemma init_LNull: "lazyInit (objs \<sigma> h) = LNull \<Longrightarrow> init h \<sigma> = Some (Inr \<sigma>)"
  by (subst init.simps) simp

lemma init_LString:
  "lazyInit (objs \<sigma> h) = LString s \<Longrightarrow>
     init h \<sigma> = Some (withThis h (\<lambda>st. bindE (initFromString s st) finishInit) \<sigma>)"
  by (subst init.simps) simp

lemma init_LRecord:
  "lazyInit (objs \<sigma> h) = LRecord es \<Longrightarrow>
     init h \<sigma> = Some (withThis h (\<lambda>st. bindE (initFromRecord es st) finishInit) \<sigma>)"
  by (subst init.simps) simp

lemma init_LParent:
  "lazyInit (objs \<sigma> h) = LParent p \<Longrightarrow>
     init h \<sigma> =
       Option.bind (init p \<sigma>) (\<lambda>r.
         Some (bindE r (\<lambda>\<sigma>1.
           withThis h (\<lambda>st. bindE (copyFrom (objs \<sigma>1 p) st) finishInit) \<sigma>1)))"
  by (subst init.simps) simp

lemma init_string:
  assumes "lazyInit (objs \<sigma> h) = LString s" "normalizedNames (objs \<sigma> h) = []"
    "lazyUpdate (objs \<sigma> h) = None"
  shows "\<exists>ob H. init h \<sigma> = Some (Inr (\<sigma>\<lparr>objs := (objs \<sigma>)(h := ob), hp := H\<rparr>)) \<and>
           rawInv (rawPairs s) (ob, H) \<and> lazyInit ob = LNull \<and> lazyUpdate ob = None \<and>
           heapExt (hp \<sigma>) H"
proof -
  from initFromString_ok [OF assms(2), of s "hp \<sigma>"] obtain ob1 H1 where
    s1: "initFromString s (objs \<sigma> h, hp \<sigma>) = Inr (ob1, H1)" "rawInv (rawPairs s) (ob1, H1)"
        "heapExt (hp \<sigma>) H1" "lazyUpdate ob1 = lazyUpdate (objs \<sigma> h)"
    by blast
  have "rawInv (rawPairs s) (ob1\<lparr>lazyInit := LNull\<rparr>, H1)"
    using s1(2) by simp
  with s1 assms show ?thesis
    by (intro exI [of _ "ob1\<lparr>lazyInit := LNull\<rparr>"] exI [of _ H1])
       (simp add: init_LString withThis_def finishInit_def)
qed

lemma init_root_ok:
  assumes ok: "storeOK \<sigma>" and h: "h < nextObj \<sigma>" and root: "isRoot (lazyInit (objs \<sigma> h))"
  shows "\<exists>ob H. init h \<sigma> = Some (Inr (\<sigma>\<lparr>objs := (objs \<sigma>)(h := ob), hp := H\<rparr>)) \<and>
           mapsOK H ob \<and> lazyInit ob = LNull \<and> lazyUpdate ob = None \<and> heapExt (hp \<sigma>) H \<and>
           (lazyInit (objs \<sigma> h) = LNull \<longrightarrow> ob = objs \<sigma> h \<and> H = hp \<sigma>)"
proof -
  from ok h have obj: "objOK \<sigma> (objs \<sigma> h)" by (simp add: storeOK_def)
  show ?thesis
  proof (cases "lazyInit (objs \<sigma> h)")
    case LNull
    with obj have "mapsOK (hp \<sigma>) (objs \<sigma> h)" "lazyUpdate (objs \<sigma> h) = None"
      by (simp_all add: objOK_def)
    moreover have "\<sigma>\<lparr>objs := (objs \<sigma>)(h := objs \<sigma> h), hp := hp \<sigma>\<rparr> = \<sigma>" by simp
    ultimately show ?thesis using LNull init_LNull [OF LNull]
      by (intro exI [of _ "objs \<sigma> h"] exI [of _ "hp \<sigma>"]) simp
  next
    case (LParent p)
    with root show ?thesis by (simp add: isRoot_def)
  next
    case (LString s)
    with obj have "normalizedNames (objs \<sigma> h) = []" "lazyUpdate (objs \<sigma> h) = None"
      by (simp_all add: objOK_def)
    from init_string [OF LString this] LString show ?thesis
      by (auto dest: rawInv_mapsOK)
  next
    case (LRecord es)
    with obj have o: "normalizedNames (objs \<sigma> h) = []" "lazyUpdate (objs \<sigma> h) = None"
      "\<forall>e \<in> set es. valueOK (hp \<sigma>) (snd e)"
      by (simp_all add: objOK_def)
    from initFromRecord_ok [OF o(1,3)] obtain ob1 H1 where
      s1: "initFromRecord es (objs \<sigma> h, hp \<sigma>) = Inr (ob1, H1)" "mapsOK H1 ob1"
          "heapExt (hp \<sigma>) H1" "lazyUpdate ob1 = lazyUpdate (objs \<sigma> h)"
      by blast
    have "mapsOK H1 (ob1\<lparr>lazyInit := LNull\<rparr>)"
      using s1(2) by simp
    with s1 o LRecord show ?thesis
      by (intro exI [of _ "ob1\<lparr>lazyInit := LNull\<rparr>"] exI [of _ H1])
         (simp add: init_LRecord withThis_def finishInit_def)
  qed
qed

lemma updatesOK_maps [simp]:
  "updatesOK H (ob\<lparr>headers := x, normalizedNames := y\<rparr>) = updatesOK H ob"
  by (simp add: updatesOK_def)

lemma mapsOK_copy:
  "mapsOK H b \<Longrightarrow> mapsOK H (ob\<lparr>headers := headers b, normalizedNames := normalizedNames b\<rparr>)"
  using mapsOK_cong [of "ob\<lparr>headers := headers b, normalizedNames := normalizedNames b\<rparr>" b H]
  by (simp add: sameMaps_def)

lemma init_parent:
  assumes ok: "storeOK \<sigma>" and h: "h < nextObj \<sigma>" and lp: "lazyInit (objs \<sigma> h) = LParent p"
  shows "\<exists>obp Hp.
           init p \<sigma> = Some (Inr (\<sigma>\<lparr>objs := (objs \<sigma>)(p := obp), hp := Hp\<rparr>)) \<and>
           mapsOK Hp obp \<and> lazyInit obp = LNull \<and> lazyUpdate obp = None \<and>
           heapExt (hp \<sigma>) Hp \<and> (lazyInit (objs \<sigma> p) = LNull \<longrightarrow> obp = objs \<sigma> p \<and> Hp = hp \<sigma>) \<and>
           p \<noteq> h \<and> p < nextObj \<sigma> \<and>
           init h \<sigma> =
             Some (bindE (finishInit ((objs \<sigma> h)\<lparr>headers := headers obp,
                                               normalizedNames := normalizedNames obp\<rparr>, Hp))
                    (\<lambda>(ob, H). Inr (\<sigma>\<lparr>objs := (objs \<sigma>)(p := obp, h := ob), hp := H\<rparr>)))"
proof -
  from ok h have "objOK \<sigma> (objs \<sigma> h)" by (simp add: storeOK_def)
  with lp have p: "p < nextObj \<sigma>" "isRoot (lazyInit (objs \<sigma> p))" "headers (objs \<sigma> h) = Some []"
    "normalizedNames (objs \<sigma> h) = []"
    by (simp_all add: objOK_def)
  from p(2) lp have ne: "p \<noteq> h" by (auto simp: isRoot_def)
  from init_root_ok [OF ok p(1,2)] obtain obp Hp where
    r: "init p \<sigma> = Some (Inr (\<sigma>\<lparr>objs := (objs \<sigma>)(p := obp), hp := Hp\<rparr>))" "mapsOK Hp obp"
       "lazyInit obp = LNull" "lazyUpdate obp = None" "heapExt (hp \<sigma>) Hp"
       "lazyInit (objs \<sigma> p) = LNull \<longrightarrow> obp = objs \<sigma> p \<and> Hp = hp \<sigma>"
    by blast
  have c: "copyFrom obp (objs \<sigma> h, Hp) =
             Inr ((objs \<sigma> h)\<lparr>headers := headers obp, normalizedNames := normalizedNames obp\<rparr>, Hp)"
    using r(2) p(3,4) by (rule copyFrom_ok)
  have "init h \<sigma> =
          Some (bindE (finishInit ((objs \<sigma> h)\<lparr>headers := headers obp,
                                            normalizedNames := normalizedNames obp\<rparr>, Hp))
                 (\<lambda>(ob, H). Inr (\<sigma>\<lparr>objs := (objs \<sigma>)(p := obp, h := ob), hp := H\<rparr>)))"
    using ne by (simp add: init_LParent [OF lp] r(1) withThis_def c)
  with r ne p(1) show ?thesis by blast
qed

lemma init_ok:
  assumes ok: "storeOK \<sigma>" and h: "h < nextObj \<sigma>"
  shows "\<exists>\<sigma>'. init h \<sigma> = Some (Inr \<sigma>') \<and> storeOK \<sigma>' \<and> nextObj \<sigma>' = nextObj \<sigma> \<and>
           heapExt (hp \<sigma>) (hp \<sigma>') \<and> lazyInit (objs \<sigma>' h) = LNull \<and>
           mapsOK (hp \<sigma>') (objs \<sigma>' h)"
proof (cases "isRoot (lazyInit (objs \<sigma> h))")
  case True
  from init_root_ok [OF ok h True] obtain ob H where
    r: "init h \<sigma> = Some (Inr (\<sigma>\<lparr>objs := (objs \<sigma>)(h := ob), hp := H\<rparr>))" "mapsOK H ob"
       "lazyInit ob = LNull" "lazyUpdate ob = None" "heapExt (hp \<sigma>) H"
    by blast
  from storeOK_put [OF ok r(2,3,4,5), of h] r show ?thesis by simp
next
  case False
  then obtain p where lp: "lazyInit (objs \<sigma> h) = LParent p"
    by (cases "lazyInit (objs \<sigma> h)") (simp_all add: isRoot_def)
  let ?ob0 = "\<lambda>obp. (objs \<sigma> h)\<lparr>headers := headers obp, normalizedNames := normalizedNames obp\<rparr>"
  from init_parent [OF ok h lp] obtain obp Hp where
    r: "mapsOK Hp obp" "lazyInit obp = LNull" "lazyUpdate obp = None" "heapExt (hp \<sigma>) Hp"
       "p \<noteq> h" "p < nextObj \<sigma>"
       "init h \<sigma> = Some (bindE (finishInit (?ob0 obp, Hp))
                          (\<lambda>(ob, H). Inr (\<sigma>\<lparr>objs := (objs \<sigma>)(p := obp, h := ob), hp := H\<rparr>)))"
    by blast
  let ?\<sigma>1 = "\<sigma>\<lparr>objs := (objs \<sigma>)(p := obp), hp := Hp\<rparr>"
  have ok1: "storeOK ?\<sigma>1" using ok r(1,2,3,4) by (rule storeOK_put)
  from ok h have "objOK \<sigma> (objs \<sigma> h)" by (simp add: storeOK_def)
  with lp have "updatesOK (hp \<sigma>) (objs \<sigma> h)" by (simp add: objOK_def)
  then have "updatesOK Hp (objs \<sigma> h)" using r(4) by (rule updatesOK_ext)
  then have u: "updatesOK Hp (?ob0 obp)" by simp
  have m: "mapsOK Hp (?ob0 obp)" using r(1) by (rule mapsOK_copy)
  from finishInit_ok [OF m u] obtain ob' H' where
    f: "finishInit (?ob0 obp, Hp) = Inr (ob', H')" "mapsOK H' ob'" "heapExt Hp H'"
       "lazyInit ob' = LNull" "lazyUpdate ob' = None"
    by blast
  have "storeOK (?\<sigma>1\<lparr>objs := (objs ?\<sigma>1)(h := ob'), hp := H'\<rparr>)"
    using ok1 f(2,4,5) by (rule storeOK_put) (use f(3) in simp)
  moreover have "?\<sigma>1\<lparr>objs := (objs ?\<sigma>1)(h := ob'), hp := H'\<rparr> =
                   \<sigma>\<lparr>objs := (objs \<sigma>)(p := obp, h := ob'), hp := H'\<rparr>"
    by simp
  ultimately have "storeOK (\<sigma>\<lparr>objs := (objs \<sigma>)(p := obp, h := ob'), hp := H'\<rparr>)"
    by simp
  with r(7) f heapExt_trans [OF r(4) f(3)] show ?thesis by simp
qed

lemma storeOK_empty: "storeOK emptyStore"
  by (simp add: storeOK_def emptyStore_def)

lemma storeOK_callerArray:
  assumes "storeOK \<sigma>"
  shows "storeOK (snd (callerArray xs \<sigma>))"
  unfolding storeOK_def
proof (intro allI impI)
  let ?\<sigma>' = "snd (callerArray xs \<sigma>)"
  have s: "?\<sigma>' = \<sigma>\<lparr>hp := snd (newArray xs (hp \<sigma>))\<rparr>"
    by (simp add: callerArray_def split: prod.splits)
  fix q assume "q < nextObj ?\<sigma>'"
  with assms s have "objOK \<sigma> (objs \<sigma> q)" by (simp add: storeOK_def)
  then have "objOK ?\<sigma>' (objs \<sigma> q)"
  proof (rule objOK_mono)
    show "heapExt (hp \<sigma>) (hp ?\<sigma>')"
      unfolding s by (simp add: heapExt_newArray [of xs "hp \<sigma>" "fst (newArray xs (hp \<sigma>))"])
    show "nextObj \<sigma> \<le> nextObj ?\<sigma>'" by (simp add: s)
    show "isRoot (lazyInit (objs ?\<sigma>' r))" if "isRoot (lazyInit (objs \<sigma> r))" for r
      using that by (simp add: s)
  qed
  then show "objOK ?\<sigma>' (objs ?\<sigma>' q)" by (simp add: s)
qed

lemma storeOK_alloc:
  assumes ok: "storeOK \<sigma>"
    and new: "objOK (\<sigma>\<lparr>objs := (objs \<sigma>)(nextObj \<sigma> := ob), nextObj := Suc (nextObj \<sigma>)\<rparr>) ob"
  shows "storeOK (\<sigma>\<lparr>objs := (objs \<sigma>)(nextObj \<sigma> := ob), nextObj := Suc (nextObj \<sigma>)\<rparr>)"
  unfolding storeOK_def
proof (intro allI impI)
  let ?\<sigma>' = "\<sigma>\<lparr>objs := (objs \<sigma>)(nextObj \<sigma> := ob), nextObj := Suc (nextObj \<sigma>)\<rparr>"
  fix q assume q: "q < nextObj ?\<sigma>'"
  show "objOK ?\<sigma>' (objs ?\<sigma>' q)"
  proof (cases "q = nextObj \<sigma>")
    case True
    with new show ?thesis by simp
  next
    case False
    with q ok have "objOK \<sigma> (objs \<sigma> q)" by (simp add: storeOK_def)
    then have "objOK ?\<sigma>' (objs \<sigma> q)"
    proof (rule objOK_mono)
      show "heapExt (hp \<sigma>) (hp ?\<sigma>')" by simp
      show "nextObj \<sigma> \<le> nextObj ?\<sigma>'" by simp
      show "isRoot (lazyInit (objs ?\<sigma>' r))"
        if "r < nextObj \<sigma>" "isRoot (lazyInit (objs \<sigma> r))" for r
        using that by simp
    qed
    with False show ?thesis by simp
  qed
qed

lemma storeOK_new:
  assumes ok: "storeOK \<sigma>" and a: "argOK (hp \<sigma>) arg"
  shows "storeOK (snd (newHttpHeaders arg \<sigma>))"
proof -
  have e: "mapsOK H (emptyObj\<lparr>headers := Some []\<rparr>)" for H
    by (simp add: mapsOK_def emptyObj_def)
  show ?thesis
  proof (cases arg)
    case ANone
    with e show ?thesis
      by (simp add: newHttpHeaders_def) (rule storeOK_alloc [OF ok], simp add: objOK_def emptyObj_def)
  next
    case (AString s)
    with e show ?thesis
      by (cases "s = []")
         ((simp add: newHttpHeaders_def),
          (rule storeOK_alloc [OF ok], simp add: objOK_def emptyObj_def))+
  next
    case (ARecord es)
    with a show ?thesis
      by (simp add: newHttpHeaders_def argOK_def)
         (rule storeOK_alloc [OF ok], simp add: objOK_def emptyObj_def)
  qed
qed

lemma clone_eq:
  assumes "h < nextObj \<sigma>"
  shows "clone h u \<sigma> =
           (nextObj \<sigma>, \<sigma>\<lparr>objs := (objs \<sigma>)(nextObj \<sigma> := cloneObj (objs \<sigma> h) h u),
                           nextObj := Suc (nextObj \<sigma>)\<rparr>)"
  using assms by (simp add: clone_def newHttpHeaders_def cloneObj_def emptyObj_def Let_def)

lemma storeOK_clone:
  assumes ok: "storeOK \<sigma>" and h: "h < nextObj \<sigma>" and u: "updateOK (hp \<sigma>) u"
  shows "storeOK (snd (clone h u \<sigma>))"
proof -
  let ?c = "cloneObj (objs \<sigma> h) h u"
  let ?\<sigma>' = "\<sigma>\<lparr>objs := (objs \<sigma>)(nextObj \<sigma> := ?c), nextObj := Suc (nextObj \<sigma>)\<rparr>"
  from ok h have obj: "objOK \<sigma> (objs \<sigma> h)" by (simp add: storeOK_def)
  have "objOK ?\<sigma>' ?c"
  proof (cases "lazyInit (objs \<sigma> h)")
    case LNull
    with obj h u show ?thesis
      by (simp add: objOK_def cloneObj_def isRoot_def updatesOK_def)
  next
    case (LParent p)
    with obj h u show ?thesis
      by (auto simp: objOK_def cloneObj_def isRoot_def updatesOK_def split: option.splits)
  next
    case (LString s)
    with obj h u show ?thesis
      by (simp add: objOK_def cloneObj_def isRoot_def updatesOK_def)
  next
    case (LRecord es)
    with obj h u show ?thesis
      by (simp add: objOK_def cloneObj_def isRoot_def updatesOK_def)
  qed
  with ok have "storeOK ?\<sigma>'" by (rule storeOK_alloc)
  then show ?thesis by (simp add: clone_eq [OF h])
qed

lemma afterInit_Inr:
  assumes "afterInit h \<sigma> f = Some (Inr (x, \<sigma>'))"
  shows "init h \<sigma> = Some (Inr \<sigma>')"
proof (cases "init h \<sigma>")
  case None
  with assms show ?thesis by (simp add: afterInit_def)
next
  case (Some r)
  show ?thesis
  proof (cases r)
    case (Inl e)
    with assms Some show ?thesis by (simp add: afterInit_def)
  next
    case (Inr \<sigma>1)
    with assms Some show ?thesis
      by (cases "f (objs \<sigma>1 h, hp \<sigma>1)") (simp_all add: afterInit_def)
  qed
qed

lemma reachable_storeOK: "reachable \<sigma> \<Longrightarrow> storeOK \<sigma>"
proof (induction rule: reachable.induct)
  case r_empty
  show ?case by (rule storeOK_empty)
next
  case (r_array \<sigma> xs)
  then show ?case by (simp add: storeOK_callerArray)
next
  case (r_new \<sigma> arg)
  then show ?case by (simp add: storeOK_new)
next
  case (r_append \<sigma> h v n)
  then show ?case
    by (simp add: append_hdr_def storeOK_clone updateOK_def)
next
  case (r_set \<sigma> h v n)
  then show ?case
    by (simp add: set_hdr_def storeOK_clone updateOK_def)
next
  case (r_delete \<sigma> h f n)
  then show ?case
    by (simp add: delete_hdr_def storeOK_clone updateOK_def filterOK_def split: option.splits)
next
  case (r_has \<sigma> h n b \<sigma>')
  then have "init h \<sigma> = Some (Inr \<sigma>')" unfolding has_def by (auto dest: afterInit_Inr)
  with init_ok [OF r_has.IH r_has.hyps(2)] show ?case by auto
next
  case (r_get \<sigma> h n x \<sigma>')
  then have "init h \<sigma> = Some (Inr \<sigma>')" unfolding get_def by (auto dest: afterInit_Inr)
  with init_ok [OF r_get.IH r_get.hyps(2)] show ?case by auto
next
  case (r_getAll \<sigma> h n r \<sigma>')
  then have "init h \<sigma> = Some (Inr \<sigma>')" unfolding getAll_def by (auto dest: afterInit_Inr)
  with init_ok [OF r_getAll.IH r_getAll.hyps(2)] show ?case by auto
next
  case (r_keys \<sigma> h ks \<sigma>')
  then have "init h \<sigma> = Some (Inr \<sigma>')" unfolding keys_def by (auto dest: afterInit_Inr)
  with init_ok [OF r_keys.IH r_keys.hyps(2)] show ?case by auto
next
  case (r_forEach \<sigma> h cs \<sigma>')
  then have "init h \<sigma> = Some (Inr \<sigma>')" unfolding forEach_def by (auto dest: afterInit_Inr)
  with init_ok [OF r_forEach.IH r_forEach.hyps(2)] show ?case by auto
qed

lemma bindE_Inr_id [simp]: "bindE m Inr = m"
  by (cases m) simp_all

lemma forEachE_Nil_eta [simp]: "forEachE f [] = Inr"
  by (rule ext) simp

lemma forEachE_single: "forEachE f [x] st = f x st"
  by simp

lemma copy_setLazy:
  "ob\<lparr>headers := headers b, normalizedNames := normalizedNames b, lazyInit := x\<rparr> =
     setLazy x (lazyUpdate ob) b"
  by (cases ob; cases b) (simp add: setLazy_def)

lemma setLazy_id: "lazyInit ob = li \<Longrightarrow> lazyUpdate ob = lu \<Longrightarrow> setLazy li lu ob = ob"
  by (cases ob) (simp add: setLazy_def)

lemma finishInit_eq:
  "finishInit (ob, H) =
     bindE (forEachE applyUpdate (case lazyUpdate ob of None \<Rightarrow> [] | Some us \<Rightarrow> us)
              (ob\<lparr>lazyInit := LNull\<rparr>, H))
       (\<lambda>(ob2, H2). Inr (ob2\<lparr>lazyUpdate := None\<rparr>, H2))"
proof (cases "lazyUpdate ob")
  case None
  then have "ob\<lparr>lazyInit := LNull, lazyUpdate := None\<rparr> = ob\<lparr>lazyInit := LNull\<rparr>"
    by (cases ob) simp
  with None show ?thesis by (simp add: finishInit_def)
next
  case (Some us)
  then show ?thesis by (simp add: finishInit_def)
qed

lemma init_parent_fold:
  assumes ok: "storeOK \<sigma>" and h: "h < nextObj \<sigma>" and lp: "lazyInit (objs \<sigma> h) = LParent p"
  shows "\<exists>obp Hp obU HU.
           init p \<sigma> = Some (Inr (\<sigma>\<lparr>objs := (objs \<sigma>)(p := obp), hp := Hp\<rparr>)) \<and>
           mapsOK Hp obp \<and> heapExt (hp \<sigma>) Hp \<and> p \<noteq> h \<and>
           forEachE applyUpdate (case lazyUpdate (objs \<sigma> h) of None \<Rightarrow> [] | Some us \<Rightarrow> us)
             (obp, Hp) = Inr (obU, HU) \<and>
           mapsOK HU obU \<and> heapExt Hp HU \<and>
           init h \<sigma> = Some (Inr (\<sigma>\<lparr>objs := (objs \<sigma>)(p := obp, h := obU), hp := HU\<rparr>))"
proof -
  let ?us = "case lazyUpdate (objs \<sigma> h) of None \<Rightarrow> [] | Some us \<Rightarrow> us"
  let ?ob0 = "\<lambda>obp. (objs \<sigma> h)\<lparr>headers := headers obp, normalizedNames := normalizedNames obp\<rparr>"
  from init_parent [OF ok h lp] obtain obp Hp where
    r: "init p \<sigma> = Some (Inr (\<sigma>\<lparr>objs := (objs \<sigma>)(p := obp), hp := Hp\<rparr>))"
       "mapsOK Hp obp" "lazyInit obp = LNull" "lazyUpdate obp = None" "heapExt (hp \<sigma>) Hp"
       "p \<noteq> h"
       "init h \<sigma> = Some (bindE (finishInit (?ob0 obp, Hp))
                          (\<lambda>(ob, H). Inr (\<sigma>\<lparr>objs := (objs \<sigma>)(p := obp, h := ob), hp := H\<rparr>)))"
    by blast
  from ok h have "objOK \<sigma> (objs \<sigma> h)" by (simp add: storeOK_def)
  with lp have "updatesOK (hp \<sigma>) (objs \<sigma> h)" by (simp add: objOK_def)
  then have "updatesOK Hp (objs \<sigma> h)" using r(5) by (rule updatesOK_ext)
  then have us: "\<forall>u \<in> set ?us. updateOK Hp u"
    by (cases "lazyUpdate (objs \<sigma> h)") (simp_all add: updatesOK_def)
  from applyUpdates_ok [OF r(2) us] obtain obU HU where
    f: "forEachE applyUpdate ?us (obp, Hp) = Inr (obU, HU)" "mapsOK HU obU" "heapExt Hp HU"
       "lazyInit obU = LNull" "lazyUpdate obU = None"
    using r(3,4) by auto
  have e1: "(?ob0 obp)\<lparr>lazyInit := LNull\<rparr> = setLazy LNull (lazyUpdate (objs \<sigma> h)) obp"
    by (simp add: copy_setLazy)
  have "forEachE applyUpdate ?us (setLazy LNull (lazyUpdate (objs \<sigma> h)) obp, Hp) =
          Inr (setLazy LNull (lazyUpdate (objs \<sigma> h)) obU, HU)"
    by (simp add: applyUpdates_lazy [OF r(2) us] f(1))
  then have "forEachE applyUpdate ?us ((?ob0 obp)\<lparr>lazyInit := LNull\<rparr>, Hp) =
               Inr (setLazy LNull (lazyUpdate (objs \<sigma> h)) obU, HU)"
    by (simp only: e1)
  moreover have "(setLazy LNull (lazyUpdate (objs \<sigma> h)) obU)\<lparr>lazyUpdate := None\<rparr> = obU"
    using f(4,5) by (cases obU) (simp add: setLazy_def)
  ultimately have "finishInit (?ob0 obp, Hp) = Inr (obU, HU)"
    by (simp add: finishInit_eq)
  with r(7) have "init h \<sigma> = Some (Inr (\<sigma>\<lparr>objs := (objs \<sigma>)(p := obp, h := obU), hp := HU\<rparr>))"
    by simp
  with r f show ?thesis by blast
qed

lemma clone_init:
  assumes ok: "storeOK \<sigma>" and h: "h < nextObj \<sigma>" and u: "updateOK (hp \<sigma>) u"
    and c: "clone h u \<sigma> = (h2, \<sigma>1)"
  shows "\<exists>\<sigma>h \<sigma>2. init h \<sigma>1 = Some (Inr \<sigma>h) \<and> init h2 \<sigma>1 = Some (Inr \<sigma>2) \<and>
           mapsOK (hp \<sigma>h) (objs \<sigma>h h) \<and> heapExt (hp \<sigma>) (hp \<sigma>h) \<and>
           applyUpdate u (objs \<sigma>h h, hp \<sigma>h) = Inr (objs \<sigma>2 h2, hp \<sigma>2)"
proof -
  let ?c = "cloneObj (objs \<sigma> h) h u"
  from c clone_eq [OF h, of u] have h2: "h2 = nextObj \<sigma>"
    by auto
  from c clone_eq [OF h, of u]
  have s1: "\<sigma>1 = \<sigma>\<lparr>objs := (objs \<sigma>)(nextObj \<sigma> := ?c), nextObj := Suc (nextObj \<sigma>)\<rparr>"
    by auto
  from storeOK_clone [OF ok h u] c have ok1: "storeOK \<sigma>1" by simp
  from h h2 s1 have lt: "h < nextObj \<sigma>1" "h2 < nextObj \<sigma>1" "h \<noteq> h2" by simp_all
  from s1 h2 lt have o1: "objs \<sigma>1 h = objs \<sigma> h" "objs \<sigma>1 h2 = ?c" "hp \<sigma>1 = hp \<sigma>" by simp_all
  from ok h have obj: "objOK \<sigma> (objs \<sigma> h)" by (simp add: storeOK_def)
  show ?thesis
  proof (cases "isRoot (lazyInit (objs \<sigma> h))")
    case True
    with obj have lu: "lazyUpdate (objs \<sigma> h) = None"
      by (cases "lazyInit (objs \<sigma> h)") (simp_all add: objOK_def isRoot_def)
    from True have lp: "lazyInit (objs \<sigma>1 h2) = LParent h"
      by (cases "lazyInit (objs \<sigma> h)") (simp_all add: o1 cloneObj_def isRoot_def)
    have us: "(case lazyUpdate (objs \<sigma>1 h2) of None \<Rightarrow> [] | Some us \<Rightarrow> us) = [u]"
      by (simp add: o1 cloneObj_def lu)
    from init_parent_fold [OF ok1 lt(2) lp] obtain obp Hp obU HU where
      r: "init h \<sigma>1 = Some (Inr (\<sigma>1\<lparr>objs := (objs \<sigma>1)(h := obp), hp := Hp\<rparr>))"
         "mapsOK Hp obp" "heapExt (hp \<sigma>1) Hp"
         "forEachE applyUpdate (case lazyUpdate (objs \<sigma>1 h2) of None \<Rightarrow> [] | Some us \<Rightarrow> us)
            (obp, Hp) = Inr (obU, HU)"
         "init h2 \<sigma>1 = Some (Inr (\<sigma>1\<lparr>objs := (objs \<sigma>1)(h := obp, h2 := obU), hp := HU\<rparr>))"
      by blast
    from r(4) have "applyUpdate u (obp, Hp) = Inr (obU, HU)"
      by (simp only: us forEachE_single)
    with r lt(3) o1(3) show ?thesis by simp
  next
    case False
    then obtain p where lp: "lazyInit (objs \<sigma> h) = LParent p"
      by (cases "lazyInit (objs \<sigma> h)") (simp_all add: isRoot_def)
    let ?us = "case lazyUpdate (objs \<sigma> h) of None \<Rightarrow> [] | Some us \<Rightarrow> us"
    from lp have lp1: "lazyInit (objs \<sigma>1 h) = LParent p" by (simp add: o1)
    from lp have lp2: "lazyInit (objs \<sigma>1 h2) = LParent p" by (simp add: o1 cloneObj_def)
    have us2: "(case lazyUpdate (objs \<sigma>1 h2) of None \<Rightarrow> [] | Some us \<Rightarrow> us) = ?us @ [u]"
      by (simp add: o1 cloneObj_def)
    from init_parent_fold [OF ok1 lt(1) lp1] obtain obp Hp obU HU where
      a: "init p \<sigma>1 = Some (Inr (\<sigma>1\<lparr>objs := (objs \<sigma>1)(p := obp), hp := Hp\<rparr>))"
         "mapsOK Hp obp" "heapExt (hp \<sigma>1) Hp" "p \<noteq> h"
         "forEachE applyUpdate (case lazyUpdate (objs \<sigma>1 h) of None \<Rightarrow> [] | Some us \<Rightarrow> us)
            (obp, Hp) = Inr (obU, HU)"
         "mapsOK HU obU" "heapExt Hp HU"
         "init h \<sigma>1 = Some (Inr (\<sigma>1\<lparr>objs := (objs \<sigma>1)(p := obp, h := obU), hp := HU\<rparr>))"
      by blast
    from a(5) have a5: "forEachE applyUpdate ?us (obp, Hp) = Inr (obU, HU)"
      by (simp only: o1(1))
    from init_parent_fold [OF ok1 lt(2) lp2] obtain obp' Hp' obV HV where
      b: "init p \<sigma>1 = Some (Inr (\<sigma>1\<lparr>objs := (objs \<sigma>1)(p := obp'), hp := Hp'\<rparr>))"
         "p \<noteq> h2"
         "forEachE applyUpdate (case lazyUpdate (objs \<sigma>1 h2) of None \<Rightarrow> [] | Some us \<Rightarrow> us)
            (obp', Hp') = Inr (obV, HV)"
         "init h2 \<sigma>1 = Some (Inr (\<sigma>1\<lparr>objs := (objs \<sigma>1)(p := obp', h2 := obV), hp := HV\<rparr>))"
      by blast
    from b(3) have b3: "forEachE applyUpdate (?us @ [u]) (obp', Hp') = Inr (obV, HV)"
      by (simp only: us2)
    from a(1) b(1) have eq: "\<sigma>1\<lparr>objs := (objs \<sigma>1)(p := obp), hp := Hp\<rparr> =
                             \<sigma>1\<lparr>objs := (objs \<sigma>1)(p := obp'), hp := Hp'\<rparr>"
      by simp
    from arg_cong [OF eq, of "\<lambda>s. objs s p"] arg_cong [OF eq, of hp]
    have same: "obp' = obp" "Hp' = Hp" by simp_all
    from b3 same a5 have "applyUpdate u (obU, HU) = Inr (obV, HV)"
      by (simp add: forEachE_append)
    with a b(2,4) same lt(3) heapExt_trans [OF a(3) a(7)] o1(3) show ?thesis by simp
  qed
qed

lemma afterInit_Some:
  "init h \<sigma> = Some (Inr \<sigma>') \<Longrightarrow>
     afterInit h \<sigma> f = Some (bindE (f (objs \<sigma>' h, hp \<sigma>')) (\<lambda>x. Inr (x, \<sigma>')))"
  by (simp add: afterInit_def)

lemma getAllV_eq:
  "init h \<sigma> = Some (Inr \<sigma>') \<Longrightarrow> headers (objs \<sigma>' h) = Some hs \<Longrightarrow>
     getAllV h n \<sigma> = Some (Inr (map_option (arrays (hp \<sigma>')) (map_of hs (toLowerCase n)), \<sigma>'))"
  by (simp add: getAllV_def getAll_def afterInit_Some map_get_def)

lemma get_eq:
  "init h \<sigma> = Some (Inr \<sigma>') \<Longrightarrow> headers (objs \<sigma>' h) = Some hs \<Longrightarrow>
     get h n \<sigma> =
       Some (Inr (case map_of hs (toLowerCase n) of
                    None \<Rightarrow> None
                  | Some r \<Rightarrow> (case arrays (hp \<sigma>') r of [] \<Rightarrow> None | v # _ \<Rightarrow> Some v), \<sigma>'))"
  by (simp add: get_def afterInit_Some map_get_def)

lemma has_eq:
  "init h \<sigma> = Some (Inr \<sigma>') \<Longrightarrow> headers (objs \<sigma>' h) = Some hs \<Longrightarrow>
     has h n \<sigma> = Some (Inr (map_of hs (toLowerCase n) \<noteq> None, \<sigma>'))"
  by (simp add: has_def afterInit_Some map_has_def)

lemma keys_eq:
  "init h \<sigma> = Some (Inr \<sigma>') \<Longrightarrow>
     keys h \<sigma> = Some (Inr (map snd (normalizedNames (objs \<sigma>' h)), \<sigma>'))"
  by (simp add: keys_def afterInit_Some map_values_def)

lemma reads_same:
  assumes "init h \<sigma> = Some (Inr \<sigma>a)" "init h2 \<sigma> = Some (Inr \<sigma>b)"
    "objs \<sigma>b h2 = objs \<sigma>a h" "hp \<sigma>b = hp \<sigma>a"
  shows "answer (has h2 n \<sigma>) = answer (has h n \<sigma>)"
    "answer (get h2 n \<sigma>) = answer (get h n \<sigma>)"
    "answer (getAllV h2 n \<sigma>) = answer (getAllV h n \<sigma>)"
    "answer (keys h2 \<sigma>) = answer (keys h \<sigma>)"
    "answer (forEachV h2 \<sigma>) = answer (forEachV h \<sigma>)"
proof -
  have a: "answer (afterInit h2 \<sigma> f) = answer (afterInit h \<sigma> f)" for f :: "mstate \<Rightarrow> error + 'x"
    using assms
    by (cases "f (objs \<sigma>a h, hp \<sigma>a)") (simp_all add: afterInit_Some answer_def)
  show "answer (has h2 n \<sigma>) = answer (has h n \<sigma>)"
    "answer (get h2 n \<sigma>) = answer (get h n \<sigma>)"
    "answer (keys h2 \<sigma>) = answer (keys h \<sigma>)"
    unfolding has_def get_def keys_def by (rule a)+
  have g: "getAll h2 n \<sigma> = Some (bindE (case headers (objs \<sigma>a h) of None \<Rightarrow> Inl TypeError
             | Some hs \<Rightarrow> Inr (map_get hs (toLowerCase n))) (\<lambda>x. Inr (x, \<sigma>b)))"
    using assms by (simp add: getAll_def afterInit_Some)
  have g': "getAll h n \<sigma> = Some (bindE (case headers (objs \<sigma>a h) of None \<Rightarrow> Inl TypeError
             | Some hs \<Rightarrow> Inr (map_get hs (toLowerCase n))) (\<lambda>x. Inr (x, \<sigma>a)))"
    using assms by (simp add: getAll_def afterInit_Some)
  show "answer (getAllV h2 n \<sigma>) = answer (getAllV h n \<sigma>)"
    using assms(4)
    by (cases "headers (objs \<sigma>a h)") (simp_all add: getAllV_def g g' answer_def)
  let ?c = "forEachCalls (objs \<sigma>a h) (map_keys (normalizedNames (objs \<sigma>a h)))"
  have f: "forEach h2 \<sigma> = Some (bindE ?c (\<lambda>x. Inr (x, \<sigma>b)))"
    using assms by (simp add: forEach_def afterInit_Some)
  have f': "forEach h \<sigma> = Some (bindE ?c (\<lambda>x. Inr (x, \<sigma>a)))"
    using assms by (simp add: forEach_def afterInit_Some)
  show "answer (forEachV h2 \<sigma>) = answer (forEachV h \<sigma>)"
    using assms(4) by (cases ?c) (simp_all add: forEachV_def f f' answer_def)
qed

lemma valueList_ext:
  "valueOK H v \<Longrightarrow> heapExt H H' \<Longrightarrow> prefix (valueList H v) (valueList H' v)"
  by (cases v) (auto simp: valueOK_def valueList_def heapExt_def)

lemma valueList_ext_empty:
  "valueOK H v \<Longrightarrow> heapExt H H' \<Longrightarrow> valueList H v = [] \<Longrightarrow> valueList H' v = []"
  by (cases v) (auto simp: valueOK_def valueList_def heapExt_def)

lemma set_step:
  assumes ok: "mapsOK H ob" and v: "valueOK H v" and ne: "valueList H v \<noteq> []"
    and ap: "applyUpdate \<lparr>uname = n, uvalue = Some v, uop = OpS\<rparr> (ob, H) = Inr (ob', H')"
  shows "\<exists>hs' r. headers ob' = Some hs' \<and> map_of hs' (toLowerCase n) = Some r \<and>
           arrays H' r = valueList H' v \<and> valueList H' v = valueList H v"
proof -
  let ?u = "\<lparr>uname = n, uvalue = Some v, uop = OpS\<rparr>"
  from ok obtain hs where hs: "headers ob = Some hs" by (rule mapsOK_D)
  obtain val H0 where a: "asArray v H = (val, H0)" by (cases "asArray v H")
  note aok = asArray_ok [OF v a]
  from aok(3) ne have ne0: "arrays H0 val \<noteq> []" by simp
  have "applyUpdate ?u (ob, H) =
          Inr (maybeSetNormalizedName n (toLowerCase n) ob
                 \<lparr>headers := Some (AList.update (toLowerCase n) (nextArr H0) hs)\<rparr>,
               push (nextArr H0) (arrays (snd (newArray [] H0)) val) (snd (newArray [] H0)))"
    using applyUpdate_put [of ?u v H val H0 ob hs] a ne0 hs
    by (simp add: Let_def newArray_def)
  with ap have ob': "headers ob' = Some (AList.update (toLowerCase n) (nextArr H0) hs)"
    and H': "H' = push (nextArr H0) (arrays (snd (newArray [] H0)) val) (snd (newArray [] H0))"
    by auto
  from aok(2) have arr: "arrays H' (nextArr H0) = arrays H0 val"
    by (simp add: H' push_def newArray_def)
  have vl: "valueList H' v = valueList H v"
  proof (cases v)
    case (VStr s)
    then show ?thesis by (simp add: valueList_def)
  next
    case (VArr r)
    with v have "r < nextArr H" by (simp add: valueOK_def)
    moreover from aok(1) have "nextArr H \<le> nextArr H0" by (simp add: heapExt_def)
    ultimately show ?thesis
      using VArr aok(4) [of r] by (simp add: valueList_def H' push_def newArray_def)
  qed
  from ob' arr vl aok(3) show ?thesis
    by (simp add: AList.update_conv')
qed

lemma append_step:
  assumes ok: "mapsOK H ob" and v: "valueOK H v" and hs: "headers ob = Some hs"
    and ap: "applyUpdate \<lparr>uname = n, uvalue = Some v, uop = OpA\<rparr> (ob, H) = Inr (ob', H')"
  shows "\<exists>hs'. headers ob' = Some hs' \<and>
           map_option (arrays H') (map_of hs' (toLowerCase n)) =
             (if valueList H v = [] then map_option (arrays H) (map_of hs (toLowerCase n))
              else Some ((case map_of hs (toLowerCase n) of None \<Rightarrow> [] | Some r \<Rightarrow> arrays H r)
                         @ valueList H v))"
proof -
  let ?u = "\<lparr>uname = n, uvalue = Some v, uop = OpA\<rparr>"
  let ?k = "toLowerCase n"
  from ok hs have refs: "refsOK H hs" by (auto elim: mapsOK_D)
  obtain val H0 where a: "asArray v H = (val, H0)" by (cases "asArray v H")
  note aok = asArray_ok [OF v a]
  show ?thesis
  proof (cases "valueList H v = []")
    case True
    with aok(3) have e: "arrays H0 val = []" by simp
    have "applyUpdate ?u (ob, H) = Inr (ob, H0)"
      using applyUpdate_put_empty [of ?u v H val H0 ob] a e by simp
    with ap have "ob' = ob" "H' = H0" by auto
    moreover have "map_option (arrays H0) (map_of hs ?k) = map_option (arrays H) (map_of hs ?k)"
    proof (cases "map_of hs ?k")
      case None
      then show ?thesis by simp
    next
      case (Some r)
      with refs have "r < nextArr H" by (auto dest: refsOK_lookup)
      with Some aok(4) show ?thesis by simp
    qed
    ultimately show ?thesis using True hs by simp
  next
    case False
    with aok(3) have ne0: "arrays H0 val \<noteq> []" by simp
    show ?thesis
    proof (cases "map_of hs ?k")
      case None
      have "applyUpdate ?u (ob, H) =
              Inr (maybeSetNormalizedName n ?k ob\<lparr>headers := Some (AList.update ?k (nextArr H0) hs)\<rparr>,
                   push (nextArr H0) (arrays (snd (newArray [] H0)) val) (snd (newArray [] H0)))"
        using applyUpdate_put [of ?u v H val H0 ob hs] a ne0 hs None
        by (simp add: Let_def newArray_def)
      with ap have ob': "headers ob' = Some (AList.update ?k (nextArr H0) hs)"
        and H': "H' = push (nextArr H0) (arrays (snd (newArray [] H0)) val) (snd (newArray [] H0))"
        by auto
      from aok(2) have "arrays H' (nextArr H0) = arrays H0 val"
        by (simp add: H' push_def newArray_def)
      with ob' None False aok(3) show ?thesis
        by (simp add: AList.update_conv')
    next
      case (Some r)
      have "applyUpdate ?u (ob, H) =
              Inr (maybeSetNormalizedName n ?k ob\<lparr>headers := Some (AList.update ?k r hs)\<rparr>,
                   push r (arrays H0 val) H0)"
        using applyUpdate_put [of ?u v H val H0 ob hs] a ne0 hs Some
        by (simp add: Let_def)
      with ap have ob': "headers ob' = Some (AList.update ?k r hs)"
        and H': "H' = push r (arrays H0 val) H0"
        by auto
      from Some refs have "r < nextArr H" by (auto dest: refsOK_lookup)
      with aok(4) have "arrays H' r = arrays H r @ arrays H0 val"
        by (simp add: H' push_def)
      with ob' Some False aok(3) show ?thesis
        by (simp add: AList.update_conv')
    qed
  qed
qed

lemma new_string_eq:
  "newHttpHeaders (AString s) \<sigma> =
     (nextObj \<sigma>,
      \<sigma>\<lparr>objs := (objs \<sigma>)(nextObj \<sigma> :=
             (if s = [] then emptyObj\<lparr>headers := Some []\<rparr> else emptyObj\<lparr>lazyInit := LString s\<rparr>)),
        nextObj := Suc (nextObj \<sigma>)\<rparr>)"
  by (simp add: newHttpHeaders_def)

lemma rawPairs_Nil [simp]: "rawPairs [] = []"
  by (simp add: rawPairs_def map_filter_simps headerLine_def)

lemma init_new_string:
  assumes "newHttpHeaders (AString s) \<sigma> = (h, \<sigma>1)"
  shows "\<exists>\<sigma>2. init h \<sigma>1 = Some (Inr \<sigma>2) \<and> rawInv (rawPairs s) (objs \<sigma>2 h, hp \<sigma>2)"
proof (cases "s = []")
  case True
  with assms have h: "h = nextObj \<sigma>" and o: "objs \<sigma>1 h = emptyObj\<lparr>headers := Some []\<rparr>"
    by (auto simp: new_string_eq)
  from o have "init h \<sigma>1 = Some (Inr \<sigma>1)"
    by (intro init_LNull) (simp add: emptyObj_def)
  moreover from o True have "rawInv (rawPairs s) (objs \<sigma>1 h, hp \<sigma>1)"
    by (simp add: rawInv_def emptyObj_def)
  ultimately show ?thesis by blast
next
  case False
  with assms have h: "h = nextObj \<sigma>" and o: "objs \<sigma>1 h = emptyObj\<lparr>lazyInit := LString s\<rparr>"
    by (auto simp: new_string_eq)
  from o have "lazyInit (objs \<sigma>1 h) = LString s" "normalizedNames (objs \<sigma>1 h) = []"
    "lazyUpdate (objs \<sigma>1 h) = None"
    by (simp_all add: emptyObj_def)
  from init_string [OF this] show ?thesis by auto
qed

lemma rawInv_lookup:
  assumes "rawInv ps (ob, H)"
  obtains hs where "headers ob = Some hs"
    "map_option (arrays H) (map_of hs k) = (if valuesOf k ps = [] then None else Some (valuesOf k ps))"
    "map snd (normalizedNames ob) = firstNames [] ps"
proof -
  from assms obtain hs where hs: "headers ob = Some hs"
    and ns: "normalizedNames ob = map (\<lambda>n. (toLowerCase n, n)) (firstNames [] ps)"
    and keys: "map fst hs = map toLowerCase (firstNames [] ps)"
    and arr: "\<forall>e \<in> set hs. snd e < nextArr H \<and> arrays H (snd e) = valuesOf (fst e) ps"
    by (cases "headers ob") (auto simp: rawInv_def)
  have kset: "set (map fst hs) = (\<lambda>q. toLowerCase (fst q)) ` set ps"
    using firstNames_keys [of "[]" ps] by (simp add: keys)
  have "map_option (arrays H) (map_of hs k) =
          (if valuesOf k ps = [] then None else Some (valuesOf k ps))"
  proof (cases "map_of hs k")
    case None
    then have "k \<notin> set (map fst hs)" by (simp add: map_of_eq_None_iff)
    with kset have "valuesOf k ps = []" by (simp add: valuesOf_Nil_iff)
    with None show ?thesis by simp
  next
    case (Some r)
    then have in_hs: "(k, r) \<in> set hs" by (rule map_of_SomeD)
    then have "k \<in> set (map fst hs)" by force
    with kset have "valuesOf k ps \<noteq> []" by (simp add: valuesOf_Nil_iff)
    moreover from arr in_hs have "arrays H r = valuesOf k ps" by auto
    ultimately show ?thesis using Some by simp
  qed
  moreover have "map snd (normalizedNames ob) = firstNames [] ps"
    by (simp add: ns comp_def)
  ultimately show ?thesis using hs that by blast
qed

lemma raw_string_reads:
  assumes "newHttpHeaders (AString s) \<sigma> = (h, \<sigma>1)"
  shows "answer (getAllV h name \<sigma>1) =
           Some (Inr (if valuesOf (toLowerCase name) (rawPairs s) = [] then None
                      else Some (valuesOf (toLowerCase name) (rawPairs s))))"
    and "answer (get h name \<sigma>1) =
           Some (Inr (case valuesOf (toLowerCase name) (rawPairs s) of
                        [] \<Rightarrow> None | x # _ \<Rightarrow> Some x))"
    and "answer (has h name \<sigma>1) = Some (Inr (valuesOf (toLowerCase name) (rawPairs s) \<noteq> []))"
    and "answer (keys h \<sigma>1) = Some (Inr (firstNames [] (rawPairs s)))"
proof -
  let ?k = "toLowerCase name"
  let ?vs = "valuesOf ?k (rawPairs s)"
  from init_new_string [OF assms] obtain \<sigma>2 where
    i: "init h \<sigma>1 = Some (Inr \<sigma>2)" "rawInv (rawPairs s) (objs \<sigma>2 h, hp \<sigma>2)"
    by blast
  from i(2) obtain hs where hs: "headers (objs \<sigma>2 h) = Some hs"
    "map_option (arrays (hp \<sigma>2)) (map_of hs ?k) = (if ?vs = [] then None else Some ?vs)"
    "map snd (normalizedNames (objs \<sigma>2 h)) = firstNames [] (rawPairs s)"
    by (rule rawInv_lookup)
  show "answer (getAllV h name \<sigma>1) = Some (Inr (if ?vs = [] then None else Some ?vs))"
    using getAllV_eq [OF i(1) hs(1), of name] hs(2) by (simp add: answer_def)
  show "answer (get h name \<sigma>1) = Some (Inr (case ?vs of [] \<Rightarrow> None | x # _ \<Rightarrow> Some x))"
    using get_eq [OF i(1) hs(1), of name] hs(2)
    by (cases "map_of hs ?k"; cases ?vs) (auto simp: answer_def split: if_splits)
  show "answer (has h name \<sigma>1) = Some (Inr (?vs \<noteq> []))"
    using has_eq [OF i(1) hs(1), of name] hs(2)
    by (cases "map_of hs ?k") (auto simp: answer_def split: if_splits)
  show "answer (keys h \<sigma>1) = Some (Inr (firstNames [] (rawPairs s)))"
    using keys_eq [OF i(1)] hs(3) by (simp add: answer_def)
qed

lemma trim_white:
  assumes "\<forall>c \<in> set xs. isWhiteSpace c"
  shows "trim xs = []"
proof -
  from assms have "dropWhile isWhiteSpace xs = []"
    by (induction xs) simp_all
  then have "trim xs = rev (dropWhile isWhiteSpace (rev []))"
    by (simp only: trim_def)
  then show ?thesis by simp
qed

lemma rawPairs_member:
  assumes "line \<in> set (splitStr (CHR 0x0A) s)" "CHR '':'' \<in> set line" "namePart line \<noteq> []"
  shows "(namePart line, trim (valuePart line)) \<in> set (rawPairs s)"
proof -
  from assms(2,3) have "headerLine line = Some (namePart line, trim (valuePart line))"
    by (simp add: headerLine_def)
  with assms(1) show ?thesis
    by (force simp: rawPairs_def List.map_filter_def image_iff)
qed

lemma valuesOf_member: "(n, v) \<in> set ps \<Longrightarrow> v \<in> set (valuesOf (toLowerCase n) ps)"
  by (force simp: valuesOf_def)

lemma forEachCalls_ok:
  assumes "headers ob = Some hs" "set ks \<subseteq> fst ` set hs" "set ks \<subseteq> fst ` set (normalizedNames ob)"
  shows "\<exists>cs. forEachCalls ob ks = Inr cs"
  using assms(2,3)
proof (induction ks)
  case Nil
  then show ?case by simp
next
  case (Cons k ks)
  from Cons.prems obtain n r where "map_of (normalizedNames ob) k = Some n" "map_of hs k = Some r"
    by (metis list.set_intros(1) map_of_eq_None_iff not_None_eq subsetD)
  moreover from Cons obtain cs where "forEachCalls ob ks = Inr cs" by auto
  ultimately show ?case using assms(1) by (simp add: map_get_def)
qed

lemma reads_total:
  assumes "reachable \<sigma>" "h < nextObj \<sigma>"
  shows "(\<exists>b \<sigma>'. has h n \<sigma> = Some (Inr (b, \<sigma>'))) \<and>
         (\<exists>x \<sigma>'. get h n \<sigma> = Some (Inr (x, \<sigma>'))) \<and>
         (\<exists>r \<sigma>'. getAll h n \<sigma> = Some (Inr (r, \<sigma>'))) \<and>
         (\<exists>ks \<sigma>'. keys h \<sigma> = Some (Inr (ks, \<sigma>'))) \<and>
         (\<exists>cs \<sigma>'. forEach h \<sigma> = Some (Inr (cs, \<sigma>')))"
proof -
  from assms(1) have ok: "storeOK \<sigma>" by (rule reachable_storeOK)
  from init_ok [OF ok assms(2)] obtain \<sigma>' where
    i: "init h \<sigma> = Some (Inr \<sigma>')" "mapsOK (hp \<sigma>') (objs \<sigma>' h)"
    by blast
  from i(2) obtain hs where hs: "headers (objs \<sigma>' h) = Some hs"
    "map fst hs = map fst (normalizedNames (objs \<sigma>' h))"
    by (rule mapsOK_D)
  from hs(2) have "set (map_keys (normalizedNames (objs \<sigma>' h))) \<subseteq> fst ` set hs"
    "set (map_keys (normalizedNames (objs \<sigma>' h))) \<subseteq> fst ` set (normalizedNames (objs \<sigma>' h))"
    by (simp_all add: map_keys_def) (metis set_map subset_refl)
  from forEachCalls_ok [OF hs(1) this] obtain cs where
    "forEachCalls (objs \<sigma>' h) (map_keys (normalizedNames (objs \<sigma>' h))) = Inr cs"
    by blast
  then have "forEach h \<sigma> = Some (Inr (cs, \<sigma>'))"
    by (simp add: forEach_def afterInit_Some [OF i(1)])
  moreover have "\<exists>r. getAll h n \<sigma> = Some (Inr (r, \<sigma>'))"
    by (simp add: getAll_def afterInit_Some [OF i(1)] hs(1))
  ultimately show ?thesis
    using has_eq [OF i(1) hs(1), of n] get_eq [OF i(1) hs(1), of n] keys_eq [OF i(1)]
    by blast
qed


section \<open>Construction from a raw header block\<close>

text \<open>
  Claim C3. Raw-string construction reads the input as lines separated by newlines, splits
  each line at its first colon, takes the lowercased name as key and the trimmed rest as
  value, ignores a line without a colon or with nothing before it, appends the values of
  repeated names in line order, and records the first spelling of each name. The reads of
  the collection built by the source are those of \<open>rawPairs\<close>, \<open>valuesOf\<close> and
  \<open>firstNames\<close>, which say this in the words of the specification; for the input
  \<open>"Content-Type: application/json\nX-Foo: a"\<close> they are \<open>"application/json"\<close>,
  \<open>["a"]\<close> and \<open>["Content-Type", "X-Foo"]\<close>.
\<close>

theorem raw_string_construction:
  "(let h = fst (newHttpHeaders (AString s) \<sigma>);
        \<sigma>1 = snd (newHttpHeaders (AString s) \<sigma>);
        vs = valuesOf (toLowerCase name) (rawPairs s)
    in answer (getAllV h name \<sigma>1) = Some (Inr (if vs = [] then None else Some vs)) \<and>
       answer (get h name \<sigma>1) = Some (Inr (case vs of [] \<Rightarrow> None | x # _ \<Rightarrow> Some x)) \<and>
       answer (has h name \<sigma>1) = Some (Inr (vs \<noteq> [])) \<and>
       answer (keys h \<sigma>1) = Some (Inr (firstNames [] (rawPairs s)))) \<and>
   (let h = fst (newHttpHeaders (AString ''Content-Type: application/json\<newline>X-Foo: a'') \<sigma>);
        \<sigma>1 = snd (newHttpHeaders (AString ''Content-Type: application/json\<newline>X-Foo: a'') \<sigma>)
    in answer (get h ''content-type'' \<sigma>1) = Some (Inr (Some ''application/json'')) \<and>
       answer (getAllV h ''x-foo'' \<sigma>1) = Some (Inr (Some [''a''])) \<and>
       answer (keys h \<sigma>1) = Some (Inr [''Content-Type'', ''X-Foo'']))"
proof -
  have gen: "answer (getAllV (fst (newHttpHeaders (AString t) \<sigma>)) n (snd (newHttpHeaders (AString t) \<sigma>))) =
               Some (Inr (if valuesOf (toLowerCase n) (rawPairs t) = [] then None
                          else Some (valuesOf (toLowerCase n) (rawPairs t))))"
    "answer (get (fst (newHttpHeaders (AString t) \<sigma>)) n (snd (newHttpHeaders (AString t) \<sigma>))) =
               Some (Inr (case valuesOf (toLowerCase n) (rawPairs t) of
                            [] \<Rightarrow> None | x # _ \<Rightarrow> Some x))"
    "answer (has (fst (newHttpHeaders (AString t) \<sigma>)) n (snd (newHttpHeaders (AString t) \<sigma>))) =
               Some (Inr (valuesOf (toLowerCase n) (rawPairs t) \<noteq> []))"
    "answer (keys (fst (newHttpHeaders (AString t) \<sigma>)) (snd (newHttpHeaders (AString t) \<sigma>))) =
               Some (Inr (firstNames [] (rawPairs t)))"
    for t n
    by (rule raw_string_reads [of t \<sigma>], simp)+
  have ex: "valuesOf (toLowerCase ''content-type'')
              (rawPairs ''Content-Type: application/json\<newline>X-Foo: a'') = [''application/json'']"
    "valuesOf (toLowerCase ''x-foo'')
              (rawPairs ''Content-Type: application/json\<newline>X-Foo: a'') = [''a'']"
    "firstNames [] (rawPairs ''Content-Type: application/json\<newline>X-Foo: a'') =
              [''Content-Type'', ''X-Foo'']"
    by code_simp+
  show ?thesis
    unfolding Let_def
    by (intro conjI gen) (simp_all only: gen ex list.case list.simps if_False)
qed

theorem raw_string_construction_witness:
  "answer (getAllV (fst (newHttpHeaders (AString ''A: 1\<newline>no colon\<newline>: x\<newline>a:  2 \<newline>B:y'') emptyStore)) ''a''
             (snd (newHttpHeaders (AString ''A: 1\<newline>no colon\<newline>: x\<newline>a:  2 \<newline>B:y'') emptyStore)))
     = Some (Inr (Some [''1'', ''2''])) \<and>
   answer (keys (fst (newHttpHeaders (AString ''A: 1\<newline>no colon\<newline>: x\<newline>a:  2 \<newline>B:y'') emptyStore))
             (snd (newHttpHeaders (AString ''A: 1\<newline>no colon\<newline>: x\<newline>a:  2 \<newline>B:y'') emptyStore)))
     = Some (Inr [''A'', ''B''])"
proof -
  have ex: "valuesOf (toLowerCase ''a'') (rawPairs ''A: 1\<newline>no colon\<newline>: x\<newline>a:  2 \<newline>B:y'') = [''1'', ''2'']"
    "firstNames [] (rawPairs ''A: 1\<newline>no colon\<newline>: x\<newline>a:  2 \<newline>B:y'') = [''A'', ''B'']"
    by code_simp+
  from raw_string_construction
         [of "''A: 1\<newline>no colon\<newline>: x\<newline>a:  2 \<newline>B:y''" emptyStore "''a''"]
  show ?thesis
    unfolding Let_def by (simp only: ex list.simps if_False)
qed

text \<open>
  Claim C10. A line of a raw header block with a colon after a non-empty name and an
  empty or whitespace-only value is not skipped: its name becomes a key whose value list
  holds the empty string. For the input \<open>"X-Foo:"\<close>, \<open>has("x-foo")\<close> is true and
  \<open>get("x-foo")\<close> is the empty string, not an absent result.
\<close>

theorem empty_value_line_kept:
  "(line \<in> set (splitStr (CHR 0x0A) s) \<and> CHR '':'' \<in> set line \<and> namePart line \<noteq> [] \<and>
    (\<forall>c \<in> set (valuePart line). isWhiteSpace c) \<longrightarrow>
    (let h = fst (newHttpHeaders (AString s) \<sigma>);
         \<sigma>1 = snd (newHttpHeaders (AString s) \<sigma>)
     in answer (has h (namePart line) \<sigma>1) = Some (Inr True) \<and>
        (\<exists>vs. answer (getAllV h (namePart line) \<sigma>1) = Some (Inr (Some vs)) \<and> [] \<in> set vs) \<and>
        (\<exists>x. answer (get h (namePart line) \<sigma>1) = Some (Inr (Some x))))) \<and>
   (let h = fst (newHttpHeaders (AString ''X-Foo:'') \<sigma>);
        \<sigma>1 = snd (newHttpHeaders (AString ''X-Foo:'') \<sigma>)
    in answer (has h ''x-foo'' \<sigma>1) = Some (Inr True) \<and>
       answer (get h ''x-foo'' \<sigma>1) = Some (Inr (Some [])))"
proof (intro conjI impI)
  let ?h = "fst (newHttpHeaders (AString s) \<sigma>)"
  let ?\<sigma>1 = "snd (newHttpHeaders (AString s) \<sigma>)"
  let ?vs = "valuesOf (toLowerCase (namePart line)) (rawPairs s)"
  assume a: "line \<in> set (splitStr (CHR 0x0A) s) \<and> CHR '':'' \<in> set line \<and> namePart line \<noteq> [] \<and>
             (\<forall>c \<in> set (valuePart line). isWhiteSpace c)"
  then have "trim (valuePart line) = []" by (simp add: trim_white)
  with a rawPairs_member [of line s] have "(namePart line, []) \<in> set (rawPairs s)" by simp
  then have m: "[] \<in> set ?vs" by (rule valuesOf_member)
  then obtain x xs where ne: "?vs = x # xs" by (cases ?vs) auto
  have c: "newHttpHeaders (AString s) \<sigma> = (?h, ?\<sigma>1)" by simp
  from raw_string_reads(1,2,3) [OF c, of "namePart line"] m ne
  show "let h = ?h; \<sigma>1 = ?\<sigma>1
        in answer (has h (namePart line) \<sigma>1) = Some (Inr True) \<and>
           (\<exists>vs. answer (getAllV h (namePart line) \<sigma>1) = Some (Inr (Some vs)) \<and> [] \<in> set vs) \<and>
           (\<exists>x. answer (get h (namePart line) \<sigma>1) = Some (Inr (Some x)))"
    by (simp add: Let_def)
next
  have ex: "valuesOf (toLowerCase ''x-foo'') (rawPairs ''X-Foo:'') = [[]]"
    by code_simp
  have c: "newHttpHeaders (AString ''X-Foo:'') \<sigma> =
             (fst (newHttpHeaders (AString ''X-Foo:'') \<sigma>), snd (newHttpHeaders (AString ''X-Foo:'') \<sigma>))"
    by simp
  from raw_string_reads(2,3) [OF c, of "''x-foo''"]
  show "let h = fst (newHttpHeaders (AString ''X-Foo:'') \<sigma>);
            \<sigma>1 = snd (newHttpHeaders (AString ''X-Foo:'') \<sigma>)
        in answer (has h ''x-foo'' \<sigma>1) = Some (Inr True) \<and>
           answer (get h ''x-foo'' \<sigma>1) = Some (Inr (Some []))"
    by (simp add: Let_def ex)
qed

theorem empty_value_line_kept_witness:
  "''X-Foo: '' \<in> set (splitStr (CHR 0x0A) ''A: 1\<newline>X-Foo: '') \<and>
   CHR '':'' \<in> set ''X-Foo: '' \<and> namePart ''X-Foo: '' = ''X-Foo'' \<and>
   valuePart ''X-Foo: '' = '' '' \<and> isWhiteSpace (CHR '' '') \<and>
   answer (has (fst (newHttpHeaders (AString ''A: 1\<newline>X-Foo: '') emptyStore)) ''X-Foo''
             (snd (newHttpHeaders (AString ''A: 1\<newline>X-Foo: '') emptyStore))) = Some (Inr True) \<and>
   (\<exists>vs. answer (getAllV (fst (newHttpHeaders (AString ''A: 1\<newline>X-Foo: '') emptyStore)) ''X-Foo''
                   (snd (newHttpHeaders (AString ''A: 1\<newline>X-Foo: '') emptyStore)))
            = Some (Inr (Some vs)) \<and> [] \<in> set vs)"
proof -
  have h: "''X-Foo: '' \<in> set (splitStr (CHR 0x0A) ''A: 1\<newline>X-Foo: '')"
    "CHR '':'' \<in> set ''X-Foo: ''" "namePart ''X-Foo: '' = ''X-Foo''"
    "valuePart ''X-Foo: '' = '' ''" "isWhiteSpace (CHR '' '')"
    by code_simp+
  from h(3) have ne: "namePart ''X-Foo: '' \<noteq> []" by simp
  from h(4,5) have ws: "\<forall>c \<in> set (valuePart ''X-Foo: ''). isWhiteSpace c" by simp
  from empty_value_line_kept [of "''X-Foo: ''" "''A: 1\<newline>X-Foo: ''" emptyStore] h(1,2) ne ws
  have "answer (has (fst (newHttpHeaders (AString ''A: 1\<newline>X-Foo: '') emptyStore))
                  (namePart ''X-Foo: '')
                  (snd (newHttpHeaders (AString ''A: 1\<newline>X-Foo: '') emptyStore))) = Some (Inr True) \<and>
        (\<exists>vs. answer (getAllV (fst (newHttpHeaders (AString ''A: 1\<newline>X-Foo: '') emptyStore))
                        (namePart ''X-Foo: '')
                        (snd (newHttpHeaders (AString ''A: 1\<newline>X-Foo: '') emptyStore)))
                 = Some (Inr (Some vs)) \<and> [] \<in> set vs)"
    unfolding Let_def by blast
  with h show ?thesis by (simp only: h(3))
qed


section \<open>The state invariant\<close>

text \<open>
  Claim C4. In every store reached by constructions and operations, every initialised
  collection has the same keys in its value map and in its display-name map (here even in
  the same order), and every value list of its value map is non-empty.
\<close>

theorem keys_in_sync_lists_nonempty:
  assumes "reachable \<sigma>" "h < nextObj \<sigma>" "lazyInit (objs \<sigma> h) = LNull"
  shows "\<exists>hs. headers (objs \<sigma> h) = Some hs \<and>
           map_keys hs = map_keys (normalizedNames (objs \<sigma> h)) \<and>
           (\<forall>k. map_has hs k = map_has (normalizedNames (objs \<sigma> h)) k) \<and>
           (\<forall>k r. map_get hs k = Some r \<longrightarrow> arrays (hp \<sigma>) r \<noteq> [])"
proof -
  from assms(1) have "storeOK \<sigma>" by (rule reachable_storeOK)
  with assms(2) have "objOK \<sigma> (objs \<sigma> h)" by (simp add: storeOK_def)
  with assms(3) have "mapsOK (hp \<sigma>) (objs \<sigma> h)" by (simp add: objOK_def)
  then obtain hs where hs: "headers (objs \<sigma> h) = Some hs"
    "map fst hs = map fst (normalizedNames (objs \<sigma> h))" "refsOK (hp \<sigma>) hs"
    by (rule mapsOK_D)
  from hs(2) have "map_has hs k = map_has (normalizedNames (objs \<sigma> h)) k" for k
    by (simp add: map_has_iff)
  moreover from hs(3) have "arrays (hp \<sigma>) r \<noteq> []" if "map_get hs k = Some r" for k r
    using that by (auto simp: map_get_def dest: refsOK_lookup)
  ultimately show ?thesis using hs(1,2) by (auto simp: map_keys_def)
qed

theorem keys_in_sync_lists_nonempty_witness:
  "answer (getAllV 0 ''a'' (snd (newHttpHeaders (AString ''A: 1'') emptyStore)))
     = Some (Inr (Some [''1''])) \<and>
   (\<exists>b \<sigma>'. has 0 ''a'' (snd (newHttpHeaders (AString ''A: 1'') emptyStore)) = Some (Inr (b, \<sigma>')) \<and>
      reachable \<sigma>' \<and> 0 < nextObj \<sigma>' \<and> lazyInit (objs \<sigma>' 0) = LNull \<and>
      (\<exists>hs. headers (objs \<sigma>' 0) = Some hs \<and>
         map_keys hs = map_keys (normalizedNames (objs \<sigma>' 0)) \<and>
         (\<forall>k. map_has hs k = map_has (normalizedNames (objs \<sigma>' 0)) k) \<and>
         (\<forall>k r. map_get hs k = Some r \<longrightarrow> arrays (hp \<sigma>') r \<noteq> [])))"
proof -
  let ?\<sigma>0 = "snd (newHttpHeaders (AString ''A: 1'') emptyStore)"
  have v: "answer (getAllV 0 ''a'' ?\<sigma>0) = Some (Inr (Some [''1'']))"
    by code_simp
  have r0: "reachable ?\<sigma>0"
    by (rule r_new [OF r_empty]) (simp add: argOK_def)
  have lt: "0 < nextObj ?\<sigma>0"
    by (simp add: newHttpHeaders_def)
  from reads_total [OF r0 lt, of "''a''"] obtain b \<sigma>' where
    hs: "has 0 ''a'' ?\<sigma>0 = Some (Inr (b, \<sigma>'))"
    by blast
  from r0 lt hs have r1: "reachable \<sigma>'" by (rule r_has)
  from hs have i: "init 0 ?\<sigma>0 = Some (Inr \<sigma>')"
    unfolding has_def by (rule afterInit_Inr)
  from init_ok [OF reachable_storeOK [OF r0] lt] i
  have f: "nextObj \<sigma>' = nextObj ?\<sigma>0" "lazyInit (objs \<sigma>' 0) = LNull"
    by auto
  with lt have lt': "0 < nextObj \<sigma>'" by simp
  from keys_in_sync_lists_nonempty [OF r1 lt' f(2)] hs r1 lt' f(2) v show ?thesis
    by blast
qed


section \<open>The first read after a mutating operator\<close>

text \<open>
  The three lemmas of this section describe one read only: the first read of the
  collection that a mutating operator returns, taken from the store the operator leaves,
  with no other read in between. The read of the receiver they compare with is taken from
  that same store, and an array argument is taken with the contents it has when the
  queued update is applied, of which the contents at the call are only a prefix. They say
  nothing about later reads, nor about the receiver once the returned collection has been
  read: the arrays are shared with the parent, and the last section shows what that does.
\<close>

text \<open>
  On the collection returned by \<open>h.set(name, v)\<close>, with \<open>v\<close> non-empty at the call, the
  first \<open>getAll(name)\<close> returns what \<open>v\<close> holds when the read returns, and
  \<open>get(name)\<close> the first of it.
\<close>

lemma set_then_getAll:
  assumes "reachable \<sigma>" "h < nextObj \<sigma>" "valueOK (hp \<sigma>) v" "valueList (hp \<sigma>) v \<noteq> []"
    "toLowerCase n = toLowerCase name" "set_hdr h name v \<sigma> = (h2, \<sigma>1)"
  shows "\<exists>\<sigma>2. getAllV h2 n \<sigma>1 = Some (Inr (Some (valueList (hp \<sigma>2) v), \<sigma>2)) \<and>
           get h2 n \<sigma>1 = Some (Inr (Some (hd (valueList (hp \<sigma>2) v)), \<sigma>2)) \<and>
           valueList (hp \<sigma>2) v \<noteq> [] \<and>
           prefix (valueList (hp \<sigma>) v) (valueList (hp \<sigma>2) v)"
proof -
  let ?u = "\<lparr>uname = name, uvalue = Some v, uop = OpS\<rparr>"
  from assms(1) have ok: "storeOK \<sigma>" by (rule reachable_storeOK)
  from assms(3) have u: "updateOK (hp \<sigma>) ?u" by (simp add: updateOK_def)
  from assms(6) have c: "clone h ?u \<sigma> = (h2, \<sigma>1)" by (simp add: set_hdr_def)
  from clone_init [OF ok assms(2) u c] obtain \<sigma>h \<sigma>2 where
    i0: "init h \<sigma>1 = Some (Inr \<sigma>h)" and
    i: "init h2 \<sigma>1 = Some (Inr \<sigma>2)" "mapsOK (hp \<sigma>h) (objs \<sigma>h h)" "heapExt (hp \<sigma>) (hp \<sigma>h)"
       "applyUpdate ?u (objs \<sigma>h h, hp \<sigma>h) = Inr (objs \<sigma>2 h2, hp \<sigma>2)"
    by blast
  from assms(3) i(3) have v': "valueOK (hp \<sigma>h) v" by (rule valueOK_ext)
  from valueList_ext [OF assms(3) i(3)] assms(4)
  have pre: "prefix (valueList (hp \<sigma>) v) (valueList (hp \<sigma>h) v)"
    and ne: "valueList (hp \<sigma>h) v \<noteq> []"
    by auto
  from set_step [OF i(2) v' ne i(4)] obtain hs' r where
    s: "headers (objs \<sigma>2 h2) = Some hs'" "map_of hs' (toLowerCase name) = Some r"
       "arrays (hp \<sigma>2) r = valueList (hp \<sigma>2) v" "valueList (hp \<sigma>2) v = valueList (hp \<sigma>h) v"
    by blast
  from s(4) ne have "valueList (hp \<sigma>2) v \<noteq> []" by simp
  then obtain x xs where xs: "valueList (hp \<sigma>2) v = x # xs"
    by (meson list.exhaust)
  have "getAllV h2 n \<sigma>1 = Some (Inr (Some (valueList (hp \<sigma>2) v), \<sigma>2))"
    using getAllV_eq [OF i(1) s(1), of n] s(2,3) assms(5) by simp
  moreover have "get h2 n \<sigma>1 = Some (Inr (Some (hd (valueList (hp \<sigma>2) v)), \<sigma>2))"
    using get_eq [OF i(1) s(1), of n] s(2,3) xs assms(5) by simp
  ultimately show ?thesis using s(4) ne pre by auto
qed

lemma set_then_getAll_witness:
  "reachable (snd (newHttpHeaders (AString ''A: 1'') emptyStore)) \<and>
   0 < nextObj (snd (newHttpHeaders (AString ''A: 1'') emptyStore)) \<and>
   valueOK (hp (snd (newHttpHeaders (AString ''A: 1'') emptyStore))) (VStr ''2'') \<and>
   valueList (hp (snd (newHttpHeaders (AString ''A: 1'') emptyStore))) (VStr ''2'') \<noteq> [] \<and>
   toLowerCase ''a'' = toLowerCase ''A'' \<and>
   answer (getAllV 0 ''a'' (snd (newHttpHeaders (AString ''A: 1'') emptyStore)))
     = Some (Inr (Some [''1''])) \<and>
   (\<exists>\<sigma>2. getAllV (fst (set_hdr 0 ''A'' (VStr ''2'') (snd (newHttpHeaders (AString ''A: 1'') emptyStore))))
            ''a'' (snd (set_hdr 0 ''A'' (VStr ''2'') (snd (newHttpHeaders (AString ''A: 1'') emptyStore))))
           = Some (Inr (Some [''2''], \<sigma>2)) \<and>
         get (fst (set_hdr 0 ''A'' (VStr ''2'') (snd (newHttpHeaders (AString ''A: 1'') emptyStore))))
            ''a'' (snd (set_hdr 0 ''A'' (VStr ''2'') (snd (newHttpHeaders (AString ''A: 1'') emptyStore))))
           = Some (Inr (Some ''2'', \<sigma>2)))"
proof -
  let ?\<sigma>0 = "snd (newHttpHeaders (AString ''A: 1'') emptyStore)"
  have r0: "reachable ?\<sigma>0"
    by (rule r_new [OF r_empty]) (simp add: argOK_def)
  have lt: "0 < nextObj ?\<sigma>0"
    by (simp add: newHttpHeaders_def)
  have vok: "valueOK (hp ?\<sigma>0) (VStr ''2'')"
    by (simp add: valueOK_def)
  have ne: "valueList (hp ?\<sigma>0) (VStr ''2'') \<noteq> []"
    by (simp add: valueList_def)
  have low: "toLowerCase ''a'' = toLowerCase ''A''"
    by code_simp
  have old: "answer (getAllV 0 ''a'' ?\<sigma>0) = Some (Inr (Some [''1'']))"
    by code_simp
  have c: "set_hdr 0 ''A'' (VStr ''2'') ?\<sigma>0 =
             (fst (set_hdr 0 ''A'' (VStr ''2'') ?\<sigma>0), snd (set_hdr 0 ''A'' (VStr ''2'') ?\<sigma>0))"
    by simp
  from set_then_getAll [OF r0 lt vok ne low c] r0 lt vok ne low old show ?thesis
    by (simp add: valueList_def)
qed

text \<open>
  On the collection returned by \<open>h.append(name, v)\<close>, the first \<open>getAll(name)\<close> returns
  the list that \<open>h.getAll(name)\<close> would return from the same store (the empty list for an
  absent key) followed by what \<open>v\<close> holds at the read; when \<open>v\<close> is an empty list the
  result is the one of \<open>h\<close>, absent for an absent key.
  \<open>new HttpHeaders().append("A","1").append("A","2")\<close> gives \<open>getAll("a") = ["1","2"]\<close>.
\<close>

lemma append_then_getAll:
  assumes "reachable \<sigma>" "h < nextObj \<sigma>" "valueOK (hp \<sigma>) v"
    "toLowerCase n = toLowerCase name" "append_hdr h name v \<sigma> = (h2, \<sigma>1)"
  shows "\<exists>xs \<sigma>h ys \<sigma>2.
           getAllV h n \<sigma>1 = Some (Inr (xs, \<sigma>h)) \<and>
           getAllV h2 n \<sigma>1 = Some (Inr (ys, \<sigma>2)) \<and>
           (case ys of None \<Rightarrow> [] | Some l \<Rightarrow> l) =
             (case xs of None \<Rightarrow> [] | Some l \<Rightarrow> l) @ valueList (hp \<sigma>h) v \<and>
           ys = (if valueList (hp \<sigma>h) v = [] then xs
                 else Some ((case xs of None \<Rightarrow> [] | Some l \<Rightarrow> l) @ valueList (hp \<sigma>h) v)) \<and>
           prefix (valueList (hp \<sigma>) v) (valueList (hp \<sigma>h) v)"
proof -
  let ?u = "\<lparr>uname = name, uvalue = Some v, uop = OpA\<rparr>"
  let ?k = "toLowerCase name"
  from assms(1) have ok: "storeOK \<sigma>" by (rule reachable_storeOK)
  from assms(3) have u: "updateOK (hp \<sigma>) ?u" by (simp add: updateOK_def)
  from assms(5) have c: "clone h ?u \<sigma> = (h2, \<sigma>1)" by (simp add: append_hdr_def)
  from clone_init [OF ok assms(2) u c] obtain \<sigma>h \<sigma>2 where
    i: "init h \<sigma>1 = Some (Inr \<sigma>h)" "init h2 \<sigma>1 = Some (Inr \<sigma>2)"
       "mapsOK (hp \<sigma>h) (objs \<sigma>h h)" "heapExt (hp \<sigma>) (hp \<sigma>h)"
       "applyUpdate ?u (objs \<sigma>h h, hp \<sigma>h) = Inr (objs \<sigma>2 h2, hp \<sigma>2)"
    by blast
  from assms(3) i(4) have v': "valueOK (hp \<sigma>h) v" by (rule valueOK_ext)
  from i(3) obtain hs where hs: "headers (objs \<sigma>h h) = Some hs" by (rule mapsOK_D)
  from append_step [OF i(3) v' hs i(5)] obtain hs' where
    s: "headers (objs \<sigma>2 h2) = Some hs'"
       "map_option (arrays (hp \<sigma>2)) (map_of hs' ?k) =
          (if valueList (hp \<sigma>h) v = [] then map_option (arrays (hp \<sigma>h)) (map_of hs ?k)
           else Some ((case map_of hs ?k of None \<Rightarrow> [] | Some r \<Rightarrow> arrays (hp \<sigma>h) r)
                      @ valueList (hp \<sigma>h) v))"
    by blast
  let ?xs = "map_option (arrays (hp \<sigma>h)) (map_of hs ?k)"
  let ?ys = "map_option (arrays (hp \<sigma>2)) (map_of hs' ?k)"
  have gx: "getAllV h n \<sigma>1 = Some (Inr (?xs, \<sigma>h))"
    using getAllV_eq [OF i(1) hs, of n] assms(4) by simp
  have gy: "getAllV h2 n \<sigma>1 = Some (Inr (?ys, \<sigma>2))"
    using getAllV_eq [OF i(2) s(1), of n] assms(4) by simp
  have old: "(case map_of hs ?k of None \<Rightarrow> [] | Some r \<Rightarrow> arrays (hp \<sigma>h) r) =
               (case ?xs of None \<Rightarrow> [] | Some l \<Rightarrow> l)"
    by (cases "map_of hs ?k") simp_all
  from s(2) old have y: "?ys = (if valueList (hp \<sigma>h) v = [] then ?xs
            else Some ((case ?xs of None \<Rightarrow> [] | Some l \<Rightarrow> l) @ valueList (hp \<sigma>h) v))"
    by simp
  have "(case ?ys of None \<Rightarrow> [] | Some l \<Rightarrow> l) =
               (case ?xs of None \<Rightarrow> [] | Some l \<Rightarrow> l) @ valueList (hp \<sigma>h) v"
    by (subst y) simp
  with gx gy y valueList_ext [OF assms(3) i(4)] show ?thesis by blast
qed

lemma append_then_getAll_witness:
  "reachable (snd (append_hdr 0 ''A'' (VStr ''1'') (snd (newHttpHeaders ANone emptyStore)))) \<and>
   1 < nextObj (snd (append_hdr 0 ''A'' (VStr ''1'') (snd (newHttpHeaders ANone emptyStore)))) \<and>
   toLowerCase ''a'' = toLowerCase ''A'' \<and>
   answer (getAllV 2 ''a''
     (snd (append_hdr 1 ''A'' (VStr ''2'')
        (snd (append_hdr 0 ''A'' (VStr ''1'') (snd (newHttpHeaders ANone emptyStore)))))))
     = Some (Inr (Some [''1'', ''2''])) \<and>
   (\<exists>xs \<sigma>h ys \<sigma>2.
      getAllV 1 ''a''
        (snd (append_hdr 1 ''A'' (VStr ''2'')
           (snd (append_hdr 0 ''A'' (VStr ''1'') (snd (newHttpHeaders ANone emptyStore))))))
        = Some (Inr (xs, \<sigma>h)) \<and>
      getAllV (fst (append_hdr 1 ''A'' (VStr ''2'')
           (snd (append_hdr 0 ''A'' (VStr ''1'') (snd (newHttpHeaders ANone emptyStore))))))
        ''a''
        (snd (append_hdr 1 ''A'' (VStr ''2'')
           (snd (append_hdr 0 ''A'' (VStr ''1'') (snd (newHttpHeaders ANone emptyStore))))))
        = Some (Inr (ys, \<sigma>2)) \<and>
      ys = Some ((case xs of None \<Rightarrow> [] | Some l \<Rightarrow> l) @ [''2'']))"
proof -
  let ?\<sigma>0 = "snd (newHttpHeaders ANone emptyStore)"
  let ?\<sigma>1 = "snd (append_hdr 0 ''A'' (VStr ''1'') ?\<sigma>0)"
  let ?c = "append_hdr 1 ''A'' (VStr ''2'') ?\<sigma>1"
  have r0: "reachable ?\<sigma>0"
    by (rule r_new [OF r_empty]) (simp add: argOK_def)
  have "0 < nextObj ?\<sigma>0"
    by (simp add: newHttpHeaders_def)
  with r0 have r1: "reachable ?\<sigma>1"
    by (rule r_append) (simp add: valueOK_def)
  have lt: "1 < nextObj ?\<sigma>1"
    by code_simp
  have vok: "valueOK (hp ?\<sigma>1) (VStr ''2'')"
    by (simp add: valueOK_def)
  have low: "toLowerCase ''a'' = toLowerCase ''A''"
    by code_simp
  have ev: "answer (getAllV 2 ''a'' (snd ?c)) = Some (Inr (Some [''1'', ''2'']))"
    by code_simp
  have c: "?c = (fst ?c, snd ?c)"
    by simp
  from append_then_getAll [OF r1 lt vok low c] r1 lt low ev show ?thesis
    by (simp add: valueList_def)
qed

text \<open>
  After \<open>set(name, v)\<close> with \<open>v\<close> the empty list, a first read (\<open>has\<close>, \<open>get\<close>,
  \<open>getAll\<close>, \<open>keys\<close>, the enumeration) of the returned collection gives what the same
  read of the receiver gives from the same store.
\<close>

lemma set_empty_list_noop:
  assumes "reachable \<sigma>" "h < nextObj \<sigma>" "r < nextArr (hp \<sigma>)" "arrays (hp \<sigma>) r = []"
    "set_hdr h name (VArr r) \<sigma> = (h2, \<sigma>1)"
  shows "answer (has h2 n \<sigma>1) = answer (has h n \<sigma>1) \<and>
         answer (get h2 n \<sigma>1) = answer (get h n \<sigma>1) \<and>
         answer (getAllV h2 n \<sigma>1) = answer (getAllV h n \<sigma>1) \<and>
         answer (keys h2 \<sigma>1) = answer (keys h \<sigma>1) \<and>
         answer (forEachV h2 \<sigma>1) = answer (forEachV h \<sigma>1) \<and>
         (\<exists>x. answer (getAllV h n \<sigma>1) = Some (Inr x))"
proof -
  let ?u = "\<lparr>uname = name, uvalue = Some (VArr r), uop = OpS\<rparr>"
  from assms(1) have ok: "storeOK \<sigma>" by (rule reachable_storeOK)
  from assms(3) have vok: "valueOK (hp \<sigma>) (VArr r)" by (simp add: valueOK_def)
  then have u: "updateOK (hp \<sigma>) ?u" by (simp add: updateOK_def)
  from assms(5) have c: "clone h ?u \<sigma> = (h2, \<sigma>1)" by (simp add: set_hdr_def)
  from clone_init [OF ok assms(2) u c] obtain \<sigma>h \<sigma>2 where
    i: "init h \<sigma>1 = Some (Inr \<sigma>h)" "init h2 \<sigma>1 = Some (Inr \<sigma>2)"
       "mapsOK (hp \<sigma>h) (objs \<sigma>h h)" "heapExt (hp \<sigma>) (hp \<sigma>h)"
       "applyUpdate ?u (objs \<sigma>h h, hp \<sigma>h) = Inr (objs \<sigma>2 h2, hp \<sigma>2)"
    by blast
  from valueList_ext_empty [OF vok i(4)] assms(4) have "arrays (hp \<sigma>h) r = []"
    by (simp add: valueList_def)
  then have "applyUpdate ?u (objs \<sigma>h h, hp \<sigma>h) = Inr (objs \<sigma>h h, hp \<sigma>h)"
    by (intro applyUpdate_put_empty [of ?u "VArr r" "hp \<sigma>h" r "hp \<sigma>h" "objs \<sigma>h h"])
       (simp_all add: asArray_def)
  with i(5) have same: "objs \<sigma>2 h2 = objs \<sigma>h h" "hp \<sigma>2 = hp \<sigma>h" by simp_all
  from i(3) obtain hs where "headers (objs \<sigma>h h) = Some hs" by (rule mapsOK_D)
  from getAllV_eq [OF i(1) this, of n] have "\<exists>x. answer (getAllV h n \<sigma>1) = Some (Inr x)"
    by (simp add: answer_def)
  with reads_same [OF i(1,2) same] show ?thesis by simp
qed

lemma set_empty_list_noop_witness:
  "reachable (snd (newHttpHeaders (AString ''A: 1'') (snd (callerArray [] emptyStore)))) \<and>
   0 < nextObj (snd (newHttpHeaders (AString ''A: 1'') (snd (callerArray [] emptyStore)))) \<and>
   0 < nextArr (hp (snd (newHttpHeaders (AString ''A: 1'') (snd (callerArray [] emptyStore))))) \<and>
   arrays (hp (snd (newHttpHeaders (AString ''A: 1'') (snd (callerArray [] emptyStore))))) 0 = [] \<and>
   answer (getAllV 1 ''a''
     (snd (set_hdr 0 ''A'' (VArr 0)
        (snd (newHttpHeaders (AString ''A: 1'') (snd (callerArray [] emptyStore)))))))
     = Some (Inr (Some [''1''])) \<and>
   answer (getAllV
     (fst (set_hdr 0 ''A'' (VArr 0)
        (snd (newHttpHeaders (AString ''A: 1'') (snd (callerArray [] emptyStore))))))
     ''a''
     (snd (set_hdr 0 ''A'' (VArr 0)
        (snd (newHttpHeaders (AString ''A: 1'') (snd (callerArray [] emptyStore)))))))
     = answer (getAllV 0 ''a''
     (snd (set_hdr 0 ''A'' (VArr 0)
        (snd (newHttpHeaders (AString ''A: 1'') (snd (callerArray [] emptyStore)))))))"
proof -
  let ?\<sigma>a = "snd (callerArray [] emptyStore)"
  let ?\<sigma>b = "snd (newHttpHeaders (AString ''A: 1'') ?\<sigma>a)"
  let ?c = "set_hdr 0 ''A'' (VArr 0) ?\<sigma>b"
  have rb: "reachable ?\<sigma>b"
    by (rule r_new [OF r_array [OF r_empty]]) (simp add: argOK_def)
  have lt: "0 < nextObj ?\<sigma>b" "0 < nextArr (hp ?\<sigma>b)" "arrays (hp ?\<sigma>b) 0 = []"
    by code_simp+
  have ev: "answer (getAllV 1 ''a'' (snd ?c)) = Some (Inr (Some [''1'']))"
    by code_simp
  have c: "?c = (fst ?c, snd ?c)"
    by simp
  from set_empty_list_noop [OF rb lt c, of "''a''"] rb lt ev show ?thesis
    by simp
qed


section \<open>Lookups ignore the case of the name\<close>

text \<open>
  Claim C8. Lookups are case-insensitive: for every collection and every two names with
  the same lowercasing, \<open>has\<close>, \<open>get\<close> and \<open>getAll\<close> give the same result (and leave the
  same store) for both names; so do \<open>get("content-type")\<close> and \<open>get("Content-Type")\<close>.
\<close>

theorem lookups_case_insensitive:
  "toLowerCase n1 = toLowerCase n2 \<Longrightarrow>
     has h n1 \<sigma> = has h n2 \<sigma> \<and> get h n1 \<sigma> = get h n2 \<sigma> \<and> getAll h n1 \<sigma> = getAll h n2 \<sigma>"
  by (simp add: has_def get_def getAll_def cong: option.case_cong)

theorem lookups_case_insensitive_witness:
  "toLowerCase ''content-type'' = toLowerCase ''Content-Type'' \<and>
   get 0 ''content-type'' (snd (newHttpHeaders (AString ''Content-Type: text/plain'') emptyStore))
     = get 0 ''Content-Type'' (snd (newHttpHeaders (AString ''Content-Type: text/plain'') emptyStore)) \<and>
   answer (get 0 ''Content-Type''
             (snd (newHttpHeaders (AString ''Content-Type: text/plain'') emptyStore)))
     = Some (Inr (Some ''text/plain''))"
proof -
  have low: "toLowerCase ''content-type'' = toLowerCase ''Content-Type''"
    by code_simp
  have val: "answer (get 0 ''Content-Type''
             (snd (newHttpHeaders (AString ''Content-Type: text/plain'') emptyStore)))
     = Some (Inr (Some ''text/plain''))"
    by code_simp
  from lookups_case_insensitive [OF low] low val show ?thesis
    by blast
qed


section \<open>Where the code leaves its documented behaviour\<close>

text \<open>
  Claim C1 (the receiver of \<open>append\<close> is never observably changed) fails on the code.
  \<open>copyFrom\<close> hands the parent's arrays to the copy, and \<open>applyUpdate\<close> pushes onto the
  array it finds: after \<open>h2 = h.append("A", "2")\<close> on a collection parsed from
  \<open>"A: 1"\<close>, reading \<open>h2\<close> changes what \<open>h.getAll("A")\<close> returns from \<open>["1"]\<close> to
  \<open>["1", "2"]\<close>.
\<close>

theorem append_changes_receiver:
  "(let (h, \<sigma>0) = newHttpHeaders (AString ''A: 1'') emptyStore;
        (h2, \<sigma>1) = append_hdr h ''A'' (VStr ''2'') \<sigma>0
    in case getAllV h ''A'' \<sigma>1 of
         Some (Inr (before, \<sigma>2)) \<Rightarrow>
           (case getAllV h2 ''A'' \<sigma>2 of
              Some (Inr (appended, \<sigma>3)) \<Rightarrow>
                before = Some [''1''] \<and>
                appended = Some [''1'', ''2''] \<and>
                answer (getAllV h ''A'' \<sigma>3) = Some (Inr (Some [''1'', ''2'']))
            | _ \<Rightarrow> False)
       | _ \<Rightarrow> False)"
  by code_simp

text \<open>
  Claim C2 (\<open>delete(name, v)\<close> removes exactly the entries equal to \<open>v\<close>) fails on the
  code. The filter keeps a value when \<open>toDelete.indexOf(value) === -1\<close>, which for a
  string \<open>toDelete\<close> is a substring search: deleting \<open>"ab"\<close> from the list
  \<open>["a", "ab"]\<close> also removes \<open>"a"\<close>, and with it the key.
\<close>

theorem delete_removes_substrings:
  "(let (h, \<sigma>0) = newHttpHeaders (AString ''A: a\<newline>A: ab'') emptyStore;
        (h2, \<sigma>1) = delete_hdr h ''A'' (Some (VStr ''ab'')) \<sigma>0
    in answer (getAllV h ''A'' \<sigma>1) = Some (Inr (Some [''a'', ''ab''])) \<and>
       answer (getAllV h2 ''A'' \<sigma>1) = Some (Inr None) \<and>
       answer (has h2 ''A'' \<sigma>1) = Some (Inr False) \<and>
       answer (keys h2 \<sigma>1) = Some (Inr []))"
  by code_simp

text \<open>
  Claim C9 (no operation raises, and \<open>delete\<close> of a name or value that is not there is a
  silent no-op) fails on the code in its last part. No read raises in a reachable store
  (lemma \<open>reads_total\<close>), but \<open>delete("A", "ab")\<close> on a collection whose list for
  \<open>"A"\<close> is \<open>["a"]\<close>, where \<open>"ab"\<close> is not a value, removes \<open>"a"\<close> and the key: the
  substring search of claim C2 again.
\<close>

theorem delete_absent_value_not_noop:
  "(let (h, \<sigma>0) = newHttpHeaders (AString ''A: a'') emptyStore;
        (h2, \<sigma>1) = delete_hdr h ''A'' (Some (VStr ''ab'')) \<sigma>0
    in answer (getAllV h ''A'' \<sigma>1) = Some (Inr (Some [''a''])) \<and>
       answer (has h ''A'' \<sigma>1) = Some (Inr True) \<and>
       answer (getAllV h2 ''A'' \<sigma>1) = Some (Inr None) \<and>
       answer (has h2 ''A'' \<sigma>1) = Some (Inr False))"
  by code_simp

text \<open>
  Claim C5 (on the collection returned by \<open>h.set(name, v)\<close>, \<open>getAll(name)\<close> returns
  exactly \<open>v\<close>, the prior values discarded) fails on the code, by the shared arrays of
  claim C1. The record constructor stores the caller's array, and \<open>applyUpdate\<close> pushes
  onto the array it finds: with \<open>arr = ["1"]\<close>, \<open>p = new HttpHeaders({A: arr})\<close>,
  \<open>h = p.append("A", "2")\<close> and \<open>h2 = h.set("A", arr)\<close>, the first
  \<open>h2.getAll("A")\<close> is \<open>["1", "2"]\<close>, not the \<open>["1"]\<close> that was passed. With a string
  value the list is right at first and grows later: after \<open>h2 = h.set("A", "x")\<close> has been
  read, reading \<open>h2.append("A", "y")\<close> turns \<open>h2.getAll("A")\<close> into \<open>["x", "y"]\<close>.
\<close>

theorem set_returns_more_than_value:
  "(let (arr, \<sigma>0) = callerArray [''1''] emptyStore;
        (p, \<sigma>1) = newHttpHeaders (ARecord [(''A'', VArr arr)]) \<sigma>0;
        (h, \<sigma>2) = append_hdr p ''A'' (VStr ''2'') \<sigma>1;
        (h2, \<sigma>3) = set_hdr h ''A'' (VArr arr) \<sigma>2
    in arrays (hp \<sigma>3) arr = [''1''] \<and>
       answer (getAllV h2 ''A'' \<sigma>3) = Some (Inr (Some [''1'', ''2''])))
   \<and>
   (let (h, \<sigma>0) = newHttpHeaders ANone emptyStore;
        (h2, \<sigma>1) = set_hdr h ''A'' (VStr ''x'') \<sigma>0
    in case getAllV h2 ''A'' \<sigma>1 of
         Some (Inr (first, \<sigma>2)) \<Rightarrow>
           (let (h3, \<sigma>3) = append_hdr h2 ''A'' (VStr ''y'') \<sigma>2
            in case getAllV h3 ''A'' \<sigma>3 of
                 Some (Inr (other, \<sigma>4)) \<Rightarrow>
                   first = Some [''x''] \<and>
                   other = Some [''x'', ''y''] \<and>
                   answer (getAllV h2 ''A'' \<sigma>4) = Some (Inr (Some [''x'', ''y'']))
               | _ \<Rightarrow> False)
       | _ \<Rightarrow> False)"
  by code_simp

text \<open>
  Claim C6 (on the collection returned by \<open>h.append(name, v)\<close>, \<open>getAll(name)\<close> returns
  the list of \<open>h.getAll(name)\<close> followed by the values of \<open>v\<close>) fails on the code, by
  the shared arrays of claim C1. A copy of an unread copy takes the root as its parent and
  replays the whole queue on the root's arrays: with \<open>p = new HttpHeaders("A: 1")\<close>,
  \<open>h = p.append("A", "2")\<close> and \<open>h2 = h.append("A", "3")\<close>, reading \<open>h\<close> gives
  \<open>["1", "2"]\<close> and reading \<open>h2\<close> then gives \<open>["1", "2", "2", "3"]\<close>; in the other
  order \<open>h2\<close> gives \<open>["1", "2", "3"]\<close> and \<open>h\<close> then \<open>["1", "2", "3", "2"]\<close>.
\<close>

theorem append_repeats_queued_value:
  "(let (p, \<sigma>0) = newHttpHeaders (AString ''A: 1'') emptyStore;
        (h, \<sigma>1) = append_hdr p ''A'' (VStr ''2'') \<sigma>0;
        (h2, \<sigma>2) = append_hdr h ''A'' (VStr ''3'') \<sigma>1
    in (case getAllV h ''A'' \<sigma>2 of
          Some (Inr (prior, \<sigma>3)) \<Rightarrow>
            prior = Some [''1'', ''2''] \<and>
            answer (getAllV h2 ''A'' \<sigma>3) = Some (Inr (Some [''1'', ''2'', ''2'', ''3'']))
        | _ \<Rightarrow> False) \<and>
       (case getAllV h2 ''A'' \<sigma>2 of
          Some (Inr (appended, \<sigma>3)) \<Rightarrow>
            appended = Some [''1'', ''2'', ''3''] \<and>
            answer (getAllV h ''A'' \<sigma>3) = Some (Inr (Some [''1'', ''2'', ''3'', ''2'']))
        | _ \<Rightarrow> False))"
  by code_simp

text \<open>
  Claim C7 (\<open>set(name, v)\<close> with \<open>v\<close> the empty list is a no-op: every read gives the
  same on the returned collection as on the receiver) fails on the code, by the shared
  arrays of claim C1. With \<open>p = new HttpHeaders("A: 1")\<close>,
  \<open>h = p.append("A", "2").delete("A", "9")\<close> and \<open>h2 = h.set("A", [])\<close>, reading \<open>h\<close>
  gives \<open>["1", "2"]\<close>, reading \<open>h2\<close> then gives \<open>["1", "2", "2"]\<close>, and \<open>h\<close> still
  gives \<open>["1", "2"]\<close>: the two collections hold different arrays and stay different.
\<close>

theorem set_empty_list_changes_reads:
  "(let (p, \<sigma>0) = newHttpHeaders (AString ''A: 1'') emptyStore;
        (h0, \<sigma>1) = append_hdr p ''A'' (VStr ''2'') \<sigma>0;
        (h, \<sigma>2) = delete_hdr h0 ''A'' (Some (VStr ''9'')) \<sigma>1;
        (e, \<sigma>3) = callerArray [] \<sigma>2;
        (h2, \<sigma>4) = set_hdr h ''A'' (VArr e) \<sigma>3
    in case getAllV h ''A'' \<sigma>4 of
         Some (Inr (kept, \<sigma>5)) \<Rightarrow>
           (case getAllV h2 ''A'' \<sigma>5 of
              Some (Inr (after, \<sigma>6)) \<Rightarrow>
                kept = Some [''1'', ''2''] \<and>
                after = Some [''1'', ''2'', ''2''] \<and>
                answer (getAllV h ''A'' \<sigma>6) = Some (Inr (Some [''1'', ''2'']))
            | _ \<Rightarrow> False)
       | _ \<Rightarrow> False)"
  by code_simp

end
